theory Spec2Isabelle
  imports Main "HOL-Library.Sublist" "HOL-Library.Multiset"
begin

section \<open>Characters and strings\<close>

text \<open>
  A JavaScript string is modelled as a \<^typ>\<open>string\<close>, one \<^typ>\<open>char\<close> per code unit:
  the code units below 256, which are the characters of Latin-1. A string with a code
  unit from 256 on is outside the model.
\<close>

definition code :: "char \<Rightarrow> nat" where
  "code c = of_char c"

text \<open>The class \<open>\w\<close> of a JavaScript regular expression: \<open>[A-Za-z0-9_]\<close>.\<close>

definition is_word_char :: "char \<Rightarrow> bool" where
  "is_word_char c \<longleftrightarrow>
     (48 \<le> code c \<and> code c \<le> 57) \<or> (65 \<le> code c \<and> code c \<le> 90) \<or> code c = 95 \<or>
     (97 \<le> code c \<and> code c \<le> 122)"

text \<open>
  The class \<open>\s\<close>, which is also what \<open>trim\<close> strips: tab, line feed, vertical tab,
  form feed, carriage return, space and the no-break space.
\<close>

definition is_space :: "char \<Rightarrow> bool" where
  "is_space c \<longleftrightarrow> (9 \<le> code c \<and> code c \<le> 13) \<or> code c = 32 \<or> code c = 160"

text \<open>
  \<open>Canonicalize\<close> of a regular expression with the flag \<open>i\<close> and without the flag
  \<open>u\<close>: the upper-case form of the character when that is one code unit. The letters
  \<open>a\<close> to \<open>z\<close> and the Latin-1 letters from 224 to 254, the division sign apart, go to
  the code unit 32 below. The micro sign and the y with diaeresis have an upper-case form
  from 256 on, which only they have among the characters below 256, and the sharp s has
  one of two code units; they stand for themselves.
\<close>

definition canonicalize :: "char \<Rightarrow> char" where
  "canonicalize c =
     (if (97 \<le> code c \<and> code c \<le> 122) \<or> (224 \<le> code c \<and> code c \<le> 254 \<and> code c \<noteq> 247)
      then char_of (code c - 32) else c)"

text \<open>
  \<open>String.prototype.toLowerCase\<close> on one character: \<open>A\<close> to \<open>Z\<close> and the Latin-1
  letters from 192 to 222, the multiplication sign apart, go to the code unit 32 above.
\<close>

definition toLowerCase :: "char \<Rightarrow> char" where
  "toLowerCase c =
     (if (65 \<le> code c \<and> code c \<le> 90) \<or> (192 \<le> code c \<and> code c \<le> 222 \<and> code c \<noteq> 215)
      then char_of (code c + 32) else c)"

definition startsWith :: "string \<Rightarrow> string \<Rightarrow> bool" where
  "startsWith s p \<longleftrightarrow> take (length p) s = p"

definition endsWith :: "string \<Rightarrow> string \<Rightarrow> bool" where
  "endsWith s p \<longleftrightarrow> length p \<le> length s \<and> drop (length s - length p) s = p"

section \<open>Sets in insertion order\<close>

text \<open>
  A JavaScript \<open>Set\<close> iterates in insertion order, and the order is visible (fetch
  tasks, the keyword union, the saved arrays). It is modelled as a list without
  repetition: \<open>add\<close> appends a new element and leaves a present one where it is,
  \<open>delete\<close> removes it.
\<close>

definition set_add :: "'a list \<Rightarrow> 'a \<Rightarrow> 'a list" where
  "set_add xs x = (if x \<in> set xs then xs else xs @ [x])"

definition set_delete :: "'a list \<Rightarrow> 'a \<Rightarrow> 'a list" where
  "set_delete xs x = removeAll x xs"

text \<open>\<open>new Set(iterable)\<close>: the elements are added one by one.\<close>

definition new_Set :: "'a list \<Rightarrow> 'a list" where
  "new_Set xs = foldl set_add [] xs"

section \<open>Application state\<close>

datatype source_key = KReddit | KHn | KDdg

definition sources :: "source_key list" where
  "sources = [KReddit, KHn, KDdg]"

definition key_name :: "source_key \<Rightarrow> string" where
  "key_name k = (case k of KReddit \<Rightarrow> ''reddit'' | KHn \<Rightarrow> ''hn'' | KDdg \<Rightarrow> ''ddg'')"

text \<open>
  The object \<open>state\<close> of \<open>socials.js\<close>. The field \<open>keywords\<close> is named
  \<open>statekeywords\<close> here. \<open>fetchIntervalId\<close> holds the period in milliseconds of the
  interval timer that is running, if one is. The command history serves the input
  widget only and is left out.
\<close>

record state =
  statekeywords :: "source_key \<Rightarrow> string list"
  limits :: "source_key \<Rightarrow> int option"
  globalResultLimit :: int
  fetchIntervalMinutes :: int
  isFetching :: bool
  fetchIntervalId :: "int option"

definition initial_state :: state where
  "initial_state = \<lparr> statekeywords = (\<lambda>_. []), limits = (\<lambda>_. None), globalResultLimit = 10,
     fetchIntervalMinutes = 5, isFetching = False, fetchIntervalId = None \<rparr>"

definition restartFetchInterval :: "state \<Rightarrow> state" where
  "restartFetchInterval st = st\<lparr> fetchIntervalId := Some (fetchIntervalMinutes st * 60 * 1000) \<rparr>"

section \<open>Output sink\<close>

text \<open>
  Every call of \<open>output.log\<close> is an event that carries the values interpolated into
  the line; the markup of the line is left to the terminal widget.
\<close>

datatype message =
    ErrorSavingState string string
  | NoDefaultSettings
  | ErrorLoadingState string string
  | LoadedSettings string
  | ErrorFetching string string
  | ErrorScraping string string
  | CheckingForNewItems
  | NoKeywordsToMonitor
  | Header string
  | KeywordsUpdated
  | InvalidSource string
  | LimitReset string int
  | LimitSet string int
  | InvalidLimit
  | GlobalLimitSet int
  | UsageSetList
  | IntervalUpdated int
  | UsageSetInterval
  | UsageSetDefault
  | DefaultSet string
  | ErrorSettingDefault string
  | InvalidSet
  | UsageSave
  | SettingsSaved string
  | UsageLoad
  | NoSettingsFileFound string
  | UnknownCommand string
  | SettingsHeader
  | SourceHeader string
  | KeywordLine string
  | HelpText
  | Blank

datatype js_error = ENOENT string | SyntaxError string | TypeError string | Error string | IOError string

definition error_message :: "js_error \<Rightarrow> string" where
  "error_message e = (case e of ENOENT m \<Rightarrow> m | SyntaxError m \<Rightarrow> m | TypeError m \<Rightarrow> m
     | Error m \<Rightarrow> m | IOError m \<Rightarrow> m)"

section \<open>Persistence\<close>

text \<open>
  The settings file. \<open>JSON.stringify\<close> followed by \<open>JSON.parse\<close> is the identity on
  the data \<open>saveState\<close> writes, so a file is modelled by what \<open>JSON.parse\<close> returns for
  it: a syntax error, or an object whose fields may each be missing. A field that is
  present has the type \<open>saveState\<close> gives it.
\<close>

record loaded_keywords =
  lk_reddit :: "string list option"
  lk_hn :: "string list option"
  lk_ddg :: "string list option"

record loaded_data =
  ld_keywords :: "loaded_keywords option"
  ld_limits :: "(source_key \<Rightarrow> int option) option"
  ld_globalResultLimit :: "int option"
  ld_fetchIntervalMinutes :: "int option"

datatype file_content = NotJson | Json loaded_data

text \<open>
  The working directory: the files in directory order, and the names \<open>writeFile\<close>
  rejects, each with the message of its error.
\<close>

record filesys =
  entries :: "(string \<times> file_content) list"
  write_error :: "string \<Rightarrow> string option"

definition DEFAULT_SETTINGS_FILE :: string where
  "DEFAULT_SETTINGS_FILE = ''settings.json''"

definition readFile :: "filesys \<Rightarrow> string \<Rightarrow> js_error + file_content" where
  "readFile fs filename = (case map_of (entries fs) filename of
      None \<Rightarrow> Inl (ENOENT ''ENOENT: no such file or directory'')
    | Some c \<Rightarrow> Inr c)"

fun put_entry :: "string \<Rightarrow> file_content \<Rightarrow> (string \<times> file_content) list \<Rightarrow> (string \<times> file_content) list" where
  "put_entry n c [] = [(n, c)]"
| "put_entry n c ((m, d) # es) = (if m = n then (n, c) # es else (m, d) # put_entry n c es)"

definition writeFile :: "filesys \<Rightarrow> string \<Rightarrow> file_content \<Rightarrow> js_error + filesys" where
  "writeFile fs filename c = (case write_error fs filename of
      Some m \<Rightarrow> Inl (IOError m)
    | None \<Rightarrow> Inr (fs\<lparr> entries := put_entry filename c (entries fs) \<rparr>))"

definition copyFile :: "filesys \<Rightarrow> string \<Rightarrow> string \<Rightarrow> js_error + filesys" where
  "copyFile fs src dst = (case readFile fs src of
      Inl e \<Rightarrow> Inl e
    | Inr c \<Rightarrow> writeFile fs dst c)"

definition JSON_parse :: "file_content \<Rightarrow> js_error + loaded_data" where
  "JSON_parse c = (case c of NotJson \<Rightarrow> Inl (SyntaxError ''Unexpected token'') | Json d \<Rightarrow> Inr d)"

definition savableState :: "state \<Rightarrow> loaded_data" where
  "savableState st = \<lparr>
     ld_keywords = Some \<lparr> lk_reddit = Some (statekeywords st KReddit), lk_hn = Some (statekeywords st KHn),
       lk_ddg = Some (statekeywords st KDdg) \<rparr>,
     ld_limits = Some (limits st),
     ld_globalResultLimit = Some (globalResultLimit st),
     ld_fetchIntervalMinutes = Some (fetchIntervalMinutes st) \<rparr>"

text \<open>\<open>saveState\<close> returns whether the file was written, the file system and what it logged.\<close>

definition saveState :: "string \<Rightarrow> state \<Rightarrow> filesys \<Rightarrow> bool \<times> filesys \<times> message list" where
  "saveState filename st fs = (case writeFile fs filename (Json (savableState st)) of
      Inr fs' \<Rightarrow> (True, fs', [])
    | Inl e \<Rightarrow> (False, fs, [ErrorSavingState filename (error_message e)]))"

definition autosaveState :: "state \<Rightarrow> filesys \<Rightarrow> filesys \<times> message list" where
  "autosaveState st fs = snd (saveState DEFAULT_SETTINGS_FILE st fs)"

text \<open>\<open>x || []\<close> on an array that may be missing.\<close>

definition or_empty :: "'a list option \<Rightarrow> 'a list" where
  "or_empty x = (case x of None \<Rightarrow> [] | Some xs \<Rightarrow> xs)"

text \<open>\<open>x || 10\<close> on a number that may be missing: zero is falsy as well.\<close>

definition or_ten :: "int option \<Rightarrow> int" where
  "or_ten x = (case x of None \<Rightarrow> 10 | Some n \<Rightarrow> if n = 0 then 10 else n)"

text \<open>
  \<open>applyState\<close> mutates \<open>state\<close> in place and may throw: it returns the state as it is
  when the function is left, and the error if it threw. The check comes before the
  first assignment.
\<close>

definition applyState :: "loaded_data \<Rightarrow> state \<Rightarrow> state \<times> js_error option" where
  "applyState loadedData st =
     (case ld_keywords loadedData of
        None \<Rightarrow> (st, Some (Error ''Invalid or corrupt settings file.''))
      | Some kws \<Rightarrow>
     (case ld_limits loadedData of
        None \<Rightarrow> (st, Some (Error ''Invalid or corrupt settings file.''))
      | Some lims \<Rightarrow>
     (case ld_fetchIntervalMinutes loadedData of
        None \<Rightarrow> (st, Some (Error ''Invalid or corrupt settings file.''))
      | Some minutes \<Rightarrow>
          (restartFetchInterval (st\<lparr>
             statekeywords := (\<lambda>k. case k of
                 KReddit \<Rightarrow> new_Set (or_empty (lk_reddit kws))
               | KHn \<Rightarrow> new_Set (or_empty (lk_hn kws))
               | KDdg \<Rightarrow> new_Set (or_empty (lk_ddg kws))),
             limits := lims,
             globalResultLimit := or_ten (ld_globalResultLimit loadedData),
             fetchIntervalMinutes := minutes \<rparr>), None))))"

definition loadState :: "string \<Rightarrow> filesys \<Rightarrow> state \<Rightarrow> state \<times> message list" where
  "loadState filename fs st =
     (case readFile fs filename of
        Inl e \<Rightarrow> (st, [case e of ENOENT _ \<Rightarrow> NoDefaultSettings
                              | _ \<Rightarrow> ErrorLoadingState filename (error_message e)])
      | Inr fileContent \<Rightarrow>
     (case JSON_parse fileContent of
        Inl e \<Rightarrow> (st, [ErrorLoadingState filename (error_message e)])
      | Inr loadedData \<Rightarrow>
     (case applyState loadedData st of
        (st', Some e) \<Rightarrow> (st', [ErrorLoadingState filename (error_message e)])
      | (st', None) \<Rightarrow> (st', [LoadedSettings filename]))))"

section \<open>Items and adapters\<close>

datatype source_name = Reddit | HackerNews | DuckDuckGo

definition sourceKeyMap :: "source_name \<Rightarrow> source_key" where
  "sourceKeyMap n = (case n of Reddit \<Rightarrow> KReddit | HackerNews \<Rightarrow> KHn | DuckDuckGo \<Rightarrow> KDdg)"

definition source_names :: "source_name list" where
  "source_names = [Reddit, HackerNews, DuckDuckGo]"

definition source_label :: "source_name \<Rightarrow> string" where
  "source_label n = (case n of Reddit \<Rightarrow> ''Reddit'' | HackerNews \<Rightarrow> ''Hacker News''
     | DuckDuckGo \<Rightarrow> ''DuckDuckGo'')"

text \<open>
  The object an adapter builds for one entry. \<open>title\<close> and \<open>link\<close> may be missing
  (\<open>undefined\<close>); \<open>date\<close> is the time value of the \<open>Date\<close> in milliseconds, or
  \<open>None\<close> for \<open>null\<close>; \<open>snippet\<close> is a string, since both adapters trim it.
\<close>

record raw_item =
  source :: source_name
  title :: "string option"
  link :: "string option"
  date :: "int option"
  snippet :: string
  rawContent :: string

text \<open>
  An entry of a parsed feed, as \<open>rss-parser\<close> hands it over. \<open>fi_contentText\<close> is the
  text \<open>cheerio\<close> extracts from the content.
\<close>

record feed_item =
  fi_title :: "string option"
  fi_link :: "string option"
  fi_isoDate :: "int option"
  fi_contentSnippet :: string
  fi_contentText :: string
  fi_content :: string

text \<open>
  A \<open>.result\<close> element of the scraped page: the trimmed title, the link after the
  redirect has been unwrapped, the trimmed snippet.
\<close>

record ddg_element =
  el_title :: string
  el_link :: "string option"
  el_snippet :: string

text \<open>What an awaited external call gives: it throws, or it returns a value.\<close>

datatype 'a outcome = Rejected string | Resolved 'a

text \<open>
  The network of one fetch cycle: what each call gives, and \<open>completion\<close>, the indices
  of the fetch tasks, each once, in the order in which the tasks finish.
\<close>

record network =
  parseURL :: "source_name \<Rightarrow> string \<Rightarrow> feed_item list outcome"
  scrape :: "string \<Rightarrow> ddg_element list outcome"
  completion :: "nat list"

definition trim :: "string \<Rightarrow> string" where
  "trim s = rev (dropWhile is_space (rev (dropWhile is_space s)))"

definition feed_to_item :: "source_name \<Rightarrow> feed_item \<Rightarrow> raw_item" where
  "feed_to_item src fi = \<lparr> source = src, title = fi_title fi, link = fi_link fi,
     date = fi_isoDate fi,
     snippet = trim (if fi_contentSnippet fi \<noteq> [] then fi_contentSnippet fi else fi_contentText fi),
     rawContent = fi_content fi \<rparr>"

definition recent :: "int \<Rightarrow> raw_item \<Rightarrow> bool" where
  "recent thirtyDaysAgo it = (case date it of None \<Rightarrow> False | Some d \<Rightarrow> thirtyDaysAgo < d)"

text \<open>
  An adapter is an \<open>async\<close> function: the first component is how its promise settles
  (\<open>Inl\<close> when it rejects), the second what it logged.
\<close>

definition fetchRss :: "int \<Rightarrow> source_name \<Rightarrow> feed_item list outcome \<Rightarrow>
    (js_error + raw_item list) \<times> message list" where
  "fetchRss thirtyDaysAgo src response = (case response of
      Resolved items \<Rightarrow> (Inr (filter (recent thirtyDaysAgo) (map (feed_to_item src) items)), [])
    | Rejected m \<Rightarrow> (Inr [], [ErrorFetching (source_label src) m]))"

definition truthy :: "string option \<Rightarrow> bool" where
  "truthy x = (case x of None \<Rightarrow> False | Some s \<Rightarrow> s \<noteq> [])"

definition element_to_items :: "ddg_element \<Rightarrow> raw_item list" where
  "element_to_items el = (if el_title el \<noteq> [] \<and> truthy (el_link el)
     then [\<lparr> source = DuckDuckGo, title = Some (el_title el), link = el_link el, date = None,
            snippet = el_snippet el, rawContent = [] \<rparr>]
     else [])"

definition scrapeDuckDuckGo :: "string \<Rightarrow> ddg_element list outcome \<Rightarrow>
    (js_error + raw_item list) \<times> message list" where
  "scrapeDuckDuckGo keyword response = (case response of
      Resolved els \<Rightarrow> (Inr (concat (map element_to_items els)), [])
    | Rejected m \<Rightarrow> (Inr [], [ErrorScraping keyword m]))"

text \<open>\<open>Promise.all\<close>: the values in order, or the first rejection.\<close>

fun Promise_all :: "(js_error + 'a) list \<Rightarrow> js_error + 'a list" where
  "Promise_all [] = Inr []"
| "Promise_all (Inl e # ps) = Inl e"
| "Promise_all (Inr v # ps) = (case Promise_all ps of Inl e \<Rightarrow> Inl e | Inr vs \<Rightarrow> Inr (v # vs))"

section \<open>Keyword matching\<close>

text \<open>
  The regular expressions of \<open>findAndHighlightKeywords\<close> are a word boundary, the
  characters of the keyword, a word boundary, with the flags \<open>g\<close> and \<open>i\<close>. The
  pattern is a string: the keyword with a backslash before each syntax character,
  between two \<open>\b\<close>.
\<close>

definition syntax_chars :: string where
  "syntax_chars = [CHR ''.'', CHR ''*'', CHR ''+'', CHR ''?'', CHR ''^'', CHR ''$'', CHR ''{'', CHR ''}'',
     CHR ''('', CHR '')'', CHR ''|'', CHR ''['', CHR '']'', CHR 0x5C]"

definition escape_syntax :: "string \<Rightarrow> string" where
  "escape_syntax kw = concat (map (\<lambda>c. if c \<in> set syntax_chars then [CHR 0x5C, c] else [c]) kw)"

definition keywordPattern :: "string \<Rightarrow> string" where
  "keywordPattern kw = [CHR 0x5C, CHR ''b''] @ escape_syntax kw @ [CHR 0x5C, CHR ''b'']"

datatype atom = WordBoundary | Literal char

text \<open>
  The pattern parser of \<open>new RegExp\<close>, for the patterns made of \<open>\b\<close>, escaped syntax
  characters and plain characters; \<open>None\<close> for any other pattern.
\<close>

fun parse_pattern :: "string \<Rightarrow> atom list option" where
  "parse_pattern [] = Some []"
| "parse_pattern [c] = (if c \<in> set syntax_chars then None else Some [Literal c])"
| "parse_pattern (c # d # cs) =
     (if c = CHR 0x5C then
        (if d = CHR ''b'' then map_option (\<lambda>r. WordBoundary # r) (parse_pattern cs)
         else if d \<in> set syntax_chars then map_option (\<lambda>r. Literal d # r) (parse_pattern cs)
         else None)
      else if c \<in> set syntax_chars then None
      else map_option (\<lambda>r. Literal c # r) (parse_pattern (d # cs)))"

definition keywordRegex :: "string \<Rightarrow> atom list" where
  "keywordRegex kw = WordBoundary # map Literal kw @ [WordBoundary]"

text \<open>
  Matching a sequence of atoms at one position: \<open>prev\<close> is the character before the
  position, \<open>s\<close> the input from the position on. The result is the length of the
  match. With the flag \<open>i\<close> two characters match when \<open>Canonicalize\<close> gives the same
  for both.
\<close>

definition word_before :: "char option \<Rightarrow> bool" where
  "word_before prev = (case prev of None \<Rightarrow> False | Some c \<Rightarrow> is_word_char c)"

definition word_at :: "string \<Rightarrow> bool" where
  "word_at s = (case s of [] \<Rightarrow> False | c # _ \<Rightarrow> is_word_char c)"

fun match_here :: "atom list \<Rightarrow> char option \<Rightarrow> string \<Rightarrow> nat option" where
  "match_here [] prev s = Some 0"
| "match_here (WordBoundary # r) prev s =
     (if word_before prev \<noteq> word_at s then match_here r prev s else None)"
| "match_here (Literal c # r) prev [] = None"
| "match_here (Literal c # r) prev (d # ds) =
     (if canonicalize d = canonicalize c then map_option Suc (match_here r (Some d) ds) else None)"

text \<open>\<open>regex.test(text)\<close> on a fresh expression: is there a match at some position?\<close>

fun regex_test :: "atom list \<Rightarrow> char option \<Rightarrow> string \<Rightarrow> bool" where
  "regex_test r prev [] = (match_here r prev [] \<noteq> None)"
| "regex_test r prev (c # cs) = (match_here r prev (c # cs) \<noteq> None \<or> regex_test r (Some c) cs)"

definition bold :: "string \<Rightarrow> string" where
  "bold m = ''{bold}'' @ m @ ''{/bold}''"

lemma match_here_le: "match_here r prev s = Some n \<Longrightarrow> n \<le> length s"
proof (induction r prev s arbitrary: n rule: match_here.induct)
  case (1 prev s)
  then show ?case by simp
next
  case (2 r prev s)
  then show ?case by (simp split: if_splits)
next
  case (3 c r prev)
  then show ?case by simp
next
  case (4 c r prev d ds)
  then show ?case by (auto split: if_splits)
qed

text \<open>
  \<open>text.replace(regex, '{bold}$&{/bold}')\<close> with the flag \<open>g\<close>: every match, from left
  to right, is wrapped; the scan goes on after the match, and one character further
  after an empty match.
\<close>

function replace_bold :: "atom list \<Rightarrow> char option \<Rightarrow> string \<Rightarrow> string" where
  "replace_bold r prev s =
     (case match_here r prev s of
        None \<Rightarrow> (case s of [] \<Rightarrow> [] | c # cs \<Rightarrow> c # replace_bold r (Some c) cs)
      | Some n \<Rightarrow>
          (if n = 0 then bold [] @ (case s of [] \<Rightarrow> [] | c # cs \<Rightarrow> c # replace_bold r (Some c) cs)
           else bold (take n s) @ replace_bold r (Some (s ! (n - 1))) (drop n s)))"
  by pat_completeness auto
termination
proof (relation "measure (\<lambda>(r, prev, s). length s)")
  show "wf (measure (\<lambda>(r, prev, s). length s))" by simp
next
  fix r :: "atom list" and prev :: "char option" and s :: string and c cs
  assume "s = c # cs"
  then show "((r, Some c, cs), (r, prev, s)) \<in> measure (\<lambda>(r, prev, s). length s)" by simp
next
  fix r :: "atom list" and prev :: "char option" and s :: string and n c cs
  assume "s = c # cs"
  then show "((r, Some c, cs), (r, prev, s)) \<in> measure (\<lambda>(r, prev, s). length s)" by simp
next
  fix r :: "atom list" and prev :: "char option" and s :: string and n
  assume m: "match_here r prev s = Some n" and n: "n \<noteq> 0"
  from m have "n \<le> length s" by (rule match_here_le)
  with n show "((r, Some (s ! (n - 1)), drop n s), (r, prev, s)) \<in> measure (\<lambda>(r, prev, s). length s)"
    by simp
qed

declare replace_bold.simps [simp del]

definition highlight_step :: "string \<Rightarrow> string list \<times> string \<Rightarrow> string \<Rightarrow> string list \<times> string" where
  "highlight_step text acc kw =
     (if regex_test (keywordRegex kw) None text
      then (set_add (fst acc) kw, replace_bold (keywordRegex kw) None (snd acc))
      else acc)"

text \<open>The result is \<open>(matchedKeywords, highlightedText)\<close>.\<close>

definition findAndHighlightKeywords :: "string \<Rightarrow> string list \<Rightarrow> string list \<times> string" where
  "findAndHighlightKeywords text kws = foldl (highlight_step text) ([], text) kws"

section \<open>The fetch cycle\<close>

record result =
  item :: raw_item
  matchedKeywords :: "string list"
  highlightedSnippet :: string

text \<open>
  \<open>uniqueResults\<close> is a \<open>Map\<close> from link to item, in insertion order.
\<close>

definition dedup_step :: "(string \<times> raw_item) list \<Rightarrow> raw_item \<Rightarrow> (string \<times> raw_item) list" where
  "dedup_step m it = (case link it of
      None \<Rightarrow> m
    | Some l \<Rightarrow> if l \<noteq> [] \<and> l \<notin> fst ` set m then m @ [(l, it)] else m)"

definition uniqueResults :: "raw_item list \<Rightarrow> (string \<times> raw_item) list" where
  "uniqueResults allResultsRaw = foldl dedup_step [] allResultsRaw"

definition unique_values :: "raw_item list \<Rightarrow> raw_item list" where
  "unique_values allResultsRaw = map snd (uniqueResults allResultsRaw)"

definition allKeywords :: "state \<Rightarrow> string list" where
  "allKeywords st = new_Set (statekeywords st KReddit @ statekeywords st KHn @ statekeywords st KDdg)"

text \<open>\<open>item.title + ' ' + item.snippet\<close>: a missing title reads \<open>undefined\<close>.\<close>

definition title_text :: "raw_item \<Rightarrow> string" where
  "title_text it = (case title it of None \<Rightarrow> ''undefined'' | Some t \<Rightarrow> t)"

definition scanned_text :: "raw_item \<Rightarrow> string" where
  "scanned_text it = title_text it @ '' '' @ snippet it"

text \<open>
  The body of the matching loop for one item: the results it pushes, or the
  \<open>TypeError\<close> of \<open>item.title.length\<close> when the item matched and has no title.
\<close>

definition match_item :: "string list \<Rightarrow> raw_item \<Rightarrow> js_error + result list" where
  "match_item kws it =
     (let found = findAndHighlightKeywords (scanned_text it) kws in
      if fst found \<noteq> []
      then (case title it of
              None \<Rightarrow> Inl (TypeError ''Cannot read properties of undefined'')
            | Some t \<Rightarrow> Inr [\<lparr> item = it, matchedKeywords = fst found,
                                highlightedSnippet = drop (length t + 1) (snd found) \<rparr>])
      else Inr [])"

text \<open>The matching loop: it stops at the first item that throws.\<close>

fun finalResults :: "string list \<Rightarrow> raw_item list \<Rightarrow> js_error + result list" where
  "finalResults kws [] = Inr []"
| "finalResults kws (it # items) =
     (case match_item kws it of
        Inl e \<Rightarrow> Inl e
      | Inr rs \<Rightarrow> (case finalResults kws items of Inl e \<Rightarrow> Inl e | Inr rest \<Rightarrow> Inr (rs @ rest)))"

definition push_limited :: "(source_name \<Rightarrow> result list) \<Rightarrow> result \<Rightarrow> (source_name \<Rightarrow> result list)" where
  "push_limited lr res = lr(source (item res) := lr (source (item res)) @ [res])"

definition limitedResults :: "result list \<Rightarrow> source_name \<Rightarrow> result list" where
  "limitedResults final = foldl push_limited (\<lambda>_. []) final"

text \<open>\<open>xs.slice(0, n)\<close>: a negative \<open>n\<close> counts from the end.\<close>

definition slice0 :: "'a list \<Rightarrow> int \<Rightarrow> 'a list" where
  "slice0 xs n = (if n < 0 then take (nat (int (length xs) + n)) xs else take (nat n) xs)"

definition source_limit :: "state \<Rightarrow> source_name \<Rightarrow> int" where
  "source_limit st sourceName = (case limits st (sourceKeyMap sourceName) of
      Some l \<Rightarrow> l
    | None \<Rightarrow> globalResultLimit st)"

definition date_or_zero :: "result \<Rightarrow> int" where
  "date_or_zero r = (case date (item r) of None \<Rightarrow> 0 | Some d \<Rightarrow> d)"

text \<open>
  \<open>Array.prototype.sort\<close> is stable, and the comparator orders by
  \<open>date || 0\<close>, larger first.
\<close>

definition displayResults :: "state \<Rightarrow> result list \<Rightarrow> result list" where
  "displayResults st final =
     sort_key (\<lambda>r. - date_or_zero r)
       (concat (map (\<lambda>sourceName. slice0 (limitedResults final sourceName) (source_limit st sourceName))
          source_names))"

datatype event = Log message | Render "result list" | ClearOutput | FetchAllData string | Autosave | Exit

definition allFetchTasks :: "int \<Rightarrow> network \<Rightarrow> state \<Rightarrow> ((js_error + raw_item list) \<times> message list) list" where
  "allFetchTasks thirtyDaysAgo net st =
     map (\<lambda>kw. fetchRss thirtyDaysAgo Reddit (parseURL net Reddit kw)) (statekeywords st KReddit) @
     map (\<lambda>kw. fetchRss thirtyDaysAgo HackerNews (parseURL net HackerNews kw)) (statekeywords st KHn) @
     map (\<lambda>kw. scrapeDuckDuckGo kw (scrape net kw)) (statekeywords st KDdg)"

text \<open>The lines the adapters log, in the order in which the tasks finish.\<close>

definition adapter_lines :: "nat list \<Rightarrow> ('a \<times> message list) list \<Rightarrow> message list" where
  "adapter_lines order tasks =
     concat (map (\<lambda>i. if i < length tasks then snd (tasks ! i) else []) order)"

text \<open>
  \<open>fetchAllData\<close> returns the state when the function is left, the events in order,
  and the error if the cycle threw. A cycle that throws leaves \<open>isFetching\<close> set.
\<close>

definition fetchAllData :: "string \<Rightarrow> int \<Rightarrow> network \<Rightarrow> state \<Rightarrow> state \<times> event list \<times> js_error option" where
  "fetchAllData header thirtyDaysAgo net st =
     (if isFetching st then (st, [], None)
      else
        let tasks = allFetchTasks thirtyDaysAgo net st;
            started = [Log CheckingForNewItems]
        in if tasks = [] then (st\<lparr> isFetching := False \<rparr>, started @ [Log NoKeywordsToMonitor], None)
        else
          let logged = started @ map Log (adapter_lines (completion net) tasks) in
          case Promise_all (map fst tasks) of
            Inl e \<Rightarrow> (st\<lparr> isFetching := True \<rparr>, logged, Some e)
          | Inr allResults \<Rightarrow>
              (case finalResults (allKeywords st) (unique_values (concat allResults)) of
                 Inl e \<Rightarrow> (st\<lparr> isFetching := True \<rparr>, logged, Some e)
               | Inr final \<Rightarrow>
                   (st\<lparr> isFetching := False \<rparr>,
                    logged @ (if header \<noteq> [] then [Log (Header header)] else []) @
                      [Render (displayResults st final)],
                    None)))"

section \<open>Commands\<close>

text \<open>
  The tokens of \<open>command.match(/"([^"]+)"|'([^']+)'|(\S+)/g)\<close>: at each position a
  quoted run that is not empty, or else a run of characters that are not white space.
\<close>

definition dquote :: char where
  "dquote = CHR 0x22"

definition squote :: char where
  "squote = CHR 0x27"

definition quoted :: "char \<Rightarrow> string \<Rightarrow> (string \<times> string) option" where
  "quoted q s = (case s of
      [] \<Rightarrow> None
    | c # cs \<Rightarrow>
        if c = q \<and> takeWhile (\<lambda>d. d \<noteq> q) cs \<noteq> [] \<and> dropWhile (\<lambda>d. d \<noteq> q) cs \<noteq> []
        then Some (q # takeWhile (\<lambda>d. d \<noteq> q) cs @ [q], tl (dropWhile (\<lambda>d. d \<noteq> q) cs))
        else None)"

lemma quoted_shorter: "quoted q s = Some (tok, rest) \<Longrightarrow> length rest < length s"
proof -
  assume a: "quoted q s = Some (tok, rest)"
  then obtain c cs where s: "s = c # cs" by (cases s) (simp_all add: quoted_def)
  from a s have "rest = tl (dropWhile (\<lambda>d. d \<noteq> q) cs)"
    by (simp add: quoted_def split: if_splits)
  moreover have "length (tl (dropWhile (\<lambda>d. d \<noteq> q) cs)) \<le> length cs"
    using length_dropWhile_le [of "\<lambda>d. d \<noteq> q" cs] by simp
  ultimately show ?thesis using s by simp
qed

function tokenize :: "string \<Rightarrow> string list" where
  "tokenize [] = []"
| "tokenize (c # cs) =
     (case quoted dquote (c # cs) of
        Some (tok, rest) \<Rightarrow> tok # tokenize rest
      | None \<Rightarrow>
     (case quoted squote (c # cs) of
        Some (tok, rest) \<Rightarrow> tok # tokenize rest
      | None \<Rightarrow>
          if is_space c then tokenize cs
          else (c # takeWhile (\<lambda>d. \<not> is_space d) cs) # tokenize (dropWhile (\<lambda>d. \<not> is_space d) cs)))"
  by pat_completeness auto
termination
proof (relation "measure length")
  show "wf (measure length)" by simp
next
  fix c cs x2 x y
  assume "quoted dquote (c # cs) = Some x2" and "(x, y) = x2"
  then have "quoted dquote (c # cs) = Some (x, y)" by simp
  then show "(y, c # cs) \<in> measure length" using quoted_shorter by fastforce
next
  fix c cs x2 x y
  assume "quoted squote (c # cs) = Some x2" and "(x, y) = x2"
  then have "quoted squote (c # cs) = Some (x, y)" by simp
  then show "(y, c # cs) \<in> measure length" using quoted_shorter by fastforce
next
  fix c :: char and cs :: string
  show "(cs, c # cs) \<in> measure length" by simp
next
  fix c :: char and cs :: string
  show "(dropWhile (\<lambda>d. \<not> is_space d) cs, c # cs) \<in> measure length"
    using length_dropWhile_le [of "\<lambda>d. \<not> is_space d" cs] by simp
qed

definition strip_quotes :: "string \<Rightarrow> string" where
  "strip_quotes p = filter (\<lambda>c. c \<noteq> dquote \<and> c \<noteq> squote) p"

definition is_digit :: "char \<Rightarrow> bool" where
  "is_digit c \<longleftrightarrow> 48 \<le> code c \<and> code c \<le> 57"

definition digits_value :: "string \<Rightarrow> nat" where
  "digits_value ds = foldl (\<lambda>a d. 10 * a + (code d - 48)) 0 ds"

text \<open>
  A number of JavaScript is a double: an integer below \<open>2 ^ 53\<close> is itself, a larger
  one is rounded to 53 significant bits, to the nearest and to the even one of two. An
  integer from \<open>2 ^ 1024\<close> on is \<open>Infinity\<close>, which is outside the model.
\<close>

fun bit_length :: "nat \<Rightarrow> nat" where
  "bit_length n = (if n = 0 then 0 else Suc (bit_length (n div 2)))"

declare bit_length.simps [simp del]

definition to_double :: "nat \<Rightarrow> nat" where
  "to_double n =
     (if n < 2 ^ 53 then n
      else let e = bit_length n - 53; q = n div 2 ^ e; r = n mod 2 ^ e
           in (if 2 ^ (e - 1) < r \<or> (r = 2 ^ (e - 1) \<and> odd q) then q + 1 else q) * 2 ^ e)"

text \<open>\<open>parseInt(s, 10)\<close>; \<open>None\<close> is \<open>NaN\<close>.\<close>

definition parseInt :: "string \<Rightarrow> int option" where
  "parseInt s =
     (let t = dropWhile is_space s;
          neg = (t \<noteq> [] \<and> hd t = CHR ''-'');
          u = (if t \<noteq> [] \<and> (hd t = CHR ''-'' \<or> hd t = CHR ''+'') then tl t else t);
          ds = takeWhile is_digit u
      in if ds = [] then None
         else Some (if neg then - int (to_double (digits_value ds)) else int (to_double (digits_value ds))))"

text \<open>\<open>args[i]\<close>, \<open>None\<close> when there is no such argument.\<close>

definition arg :: "string list \<Rightarrow> nat \<Rightarrow> string option" where
  "arg args i = (if i < length args then Some (args ! i) else None)"

definition parseInt_arg :: "string option \<Rightarrow> int option" where
  "parseInt_arg a = (case a of None \<Rightarrow> None | Some s \<Rightarrow> parseInt s)"

definition source_of_name :: "string \<Rightarrow> source_key option" where
  "source_of_name s = List.find (\<lambda>k. key_name k = s) sources"

definition targetSources :: "string \<Rightarrow> source_key list" where
  "targetSources sourceMatch = (case source_of_name sourceMatch of Some k \<Rightarrow> [k] | None \<Rightarrow> sources)"

definition update_keyword :: "bool \<Rightarrow> string \<Rightarrow> state \<Rightarrow> source_key \<Rightarrow> state" where
  "update_keyword adding kw st s =
     st\<lparr> statekeywords := (statekeywords st)
          (s := (if adding then set_add (statekeywords st s) kw else set_delete (statekeywords st s) kw)) \<rparr>"

text \<open>
  \<open>args.forEach(kw => targetSources.forEach(s => ...))\<close> of the branch for \<open>+\<close> and \<open>-\<close>.
\<close>

definition update_keywords :: "bool \<Rightarrow> source_key list \<Rightarrow> string list \<Rightarrow> state \<Rightarrow> state" where
  "update_keywords adding targets args st =
     foldl (\<lambda>st' kw. foldl (update_keyword adding kw) st' targets) st args"

definition listSettings :: "state \<Rightarrow> event list" where
  "listSettings st =
     Log SettingsHeader #
     concat (map (\<lambda>s. if statekeywords st s \<noteq> []
                       then Log (SourceHeader (key_name s)) # map (\<lambda>kw. Log (KeywordLine kw)) (statekeywords st s)
                       else []) sources) @
     [Log Blank]"

text \<open>
  The end of \<open>handleCommand\<close>: the autosave when the command changed the state.
\<close>

definition finish :: "bool \<Rightarrow> state \<Rightarrow> filesys \<Rightarrow> event list \<Rightarrow> js_error + (state \<times> filesys \<times> event list)" where
  "finish stateChanged st fs evs =
     (if stateChanged
      then Inr (st, fst (autosaveState st fs), evs @ [Autosave] @ map Log (snd (autosaveState st fs)))
      else Inr (st, fs, evs))"

definition limit_command :: "string \<Rightarrow> string list \<Rightarrow> state \<Rightarrow> filesys \<Rightarrow>
    js_error + (state \<times> filesys \<times> event list)" where
  "limit_command action args st fs =
     (case source_of_name (drop 1 action) of
        None \<Rightarrow> Inr (st, fs, [Log (InvalidSource (drop 1 action))])
      | Some src \<Rightarrow>
          if \<not> truthy (arg args 0) then finish False st fs (listSettings st)
          else if map toLowerCase (args ! 0) = ''default''
          then finish True (st\<lparr> limits := (limits st)(src := None) \<rparr>) fs
                 [Log (LimitReset (key_name src) (globalResultLimit st))]
          else (case parseInt (args ! 0) of
                  Some limit \<Rightarrow>
                    if 0 \<le> limit
                    then finish True (st\<lparr> limits := (limits st)(src \<mapsto> limit) \<rparr>) fs
                           [Log (LimitSet (key_name src) limit)]
                    else finish False st fs [Log InvalidLimit]
                | None \<Rightarrow> finish False st fs [Log InvalidLimit]))"

definition set_command :: "string list \<Rightarrow> state \<Rightarrow> filesys \<Rightarrow> js_error + (state \<times> filesys \<times> event list)" where
  "set_command args st fs =
     (let setting = (if truthy (arg args 0) then map toLowerCase (args ! 0) else []) in
      if setting = ''list'' then
        (case parseInt_arg (arg args 1) of
           Some v \<Rightarrow> if 0 \<le> v then finish True (st\<lparr> globalResultLimit := v \<rparr>) fs [Log (GlobalLimitSet v)]
                     else finish False st fs [Log UsageSetList]
         | None \<Rightarrow> finish False st fs [Log UsageSetList])
      else if setting = ''interval'' then
        (case parseInt_arg (arg args 1) of
           Some v \<Rightarrow> if 0 < v
                     then finish True (restartFetchInterval (st\<lparr> fetchIntervalMinutes := v \<rparr>)) fs
                            [Log (IntervalUpdated v)]
                     else finish False st fs [Log UsageSetInterval]
         | None \<Rightarrow> finish False st fs [Log UsageSetInterval])
      else if setting = ''default'' then
        (if \<not> truthy (arg args 1) then finish False st fs [Log UsageSetDefault]
         else (case copyFile fs (args ! 1) DEFAULT_SETTINGS_FILE of
                 Inr fs' \<Rightarrow> finish False st fs' [Log (DefaultSet (args ! 1))]
               | Inl e \<Rightarrow> finish False st fs [Log (ErrorSettingDefault (error_message e))]))
      else finish False st fs [Log InvalidSet])"

definition save_command :: "string list \<Rightarrow> state \<Rightarrow> filesys \<Rightarrow> js_error + (state \<times> filesys \<times> event list)" where
  "save_command args st fs =
     (if \<not> truthy (arg args 0) then finish False st fs [Log UsageSave]
      else (case saveState (args ! 0) st fs of
              (True, fs', msgs) \<Rightarrow> finish False st fs' (map Log msgs @ [Log (SettingsSaved (args ! 0))])
            | (False, fs', msgs) \<Rightarrow> finish False st fs' (map Log msgs)))"

definition load_command :: "string list \<Rightarrow> state \<Rightarrow> filesys \<Rightarrow> js_error + (state \<times> filesys \<times> event list)" where
  "load_command args st fs =
     (if \<not> truthy (arg args 0) then finish False st fs [Log UsageLoad]
      else (case List.find (\<lambda>f. startsWith f (args ! 0) \<and> endsWith f ''.json'') (map fst (entries fs)) of
              Some targetFile \<Rightarrow>
                finish False (fst (loadState targetFile fs st)) fs (map Log (snd (loadState targetFile fs st)))
            | None \<Rightarrow> finish False st fs [Log (NoSettingsFileFound (args ! 0))]))"

text \<open>
  \<open>handleCommand\<close> returns the state, the file system and the events, or the error it
  throws. A fetch cycle it starts is the event \<open>FetchAllData\<close>, the call of
  \<open>autosaveState\<close> the event \<open>Autosave\<close>.
\<close>

definition handleCommand :: "string \<Rightarrow> state \<Rightarrow> filesys \<Rightarrow> js_error + (state \<times> filesys \<times> event list)" where
  "handleCommand command st fs =
     (if command = [] then Inr (st, fs, [])
      else case tokenize command of
        [] \<Rightarrow> Inl (TypeError ''Cannot read properties of undefined'')
      | p # ps \<Rightarrow>
          let action = map toLowerCase p; args = map strip_quotes ps in
          if startsWith action ''+'' \<or> startsWith action ''-'' then
            finish True (update_keywords (startsWith action ''+'') (targetSources (drop 1 action)) args st) fs
              [Log KeywordsUpdated, FetchAllData ''Fetching for new keywords...'']
          else if startsWith action ''~'' then limit_command action args st fs
          else if action = ''list'' then finish False st fs (listSettings st)
          else if action = ''set'' then set_command args st fs
          else if action = ''save'' then save_command args st fs
          else if action = ''load'' then load_command args st fs
          else if command = ''help'' then finish False st fs [Log HelpText]
          else if command = ''fetch'' then finish False st fs [FetchAllData ''Update Complete'']
          else if command = ''clear'' then finish False st fs [ClearOutput]
          else if command = ''exit'' then Inr (st, fs, [Exit])
          else finish False st fs [Log (UnknownCommand command)])"

section \<open>Notions of the specification\<close>

text \<open>
  The definitions of this section are not part of the program: they say what the
  properties below are about.
\<close>

text \<open>
  The calls of a fetch cycle, as the specification has them: one call per source and
  keyword of that source, Reddit first, then Hacker News, then DuckDuckGo.
\<close>

definition fetch_tasks :: "state \<Rightarrow> (source_name \<times> string) list" where
  "fetch_tasks st =
     map (Pair Reddit) (statekeywords st KReddit) @
     map (Pair HackerNews) (statekeywords st KHn) @
     map (Pair DuckDuckGo) (statekeywords st KDdg)"

text \<open>A call fails when the request behind it throws.\<close>

definition call_fails :: "network \<Rightarrow> source_name \<times> string \<Rightarrow> bool" where
  "call_fails net task = (case task of (src, kw) \<Rightarrow>
     (case src of
        DuckDuckGo \<Rightarrow> (case scrape net kw of Rejected _ \<Rightarrow> True | Resolved _ \<Rightarrow> False)
      | _ \<Rightarrow> (case parseURL net src kw of Rejected _ \<Rightarrow> True | Resolved _ \<Rightarrow> False)))"

text \<open>
  What a call contributes to the cycle: nothing when it fails, and when it succeeds the
  items made of the entries of the response (the entries of a feed of the last thirty
  days, the elements of a page that have a title and a link).
\<close>

definition items_of_call :: "int \<Rightarrow> network \<Rightarrow> source_name \<times> string \<Rightarrow> raw_item list" where
  "items_of_call thirtyDaysAgo net task = (case task of (src, kw) \<Rightarrow>
     (case src of
        DuckDuckGo \<Rightarrow>
          (case scrape net kw of
             Rejected _ \<Rightarrow> []
           | Resolved els \<Rightarrow> concat (map element_to_items els))
      | _ \<Rightarrow>
          (case parseURL net src kw of
             Rejected _ \<Rightarrow> []
           | Resolved feed \<Rightarrow> filter (recent thirtyDaysAgo) (map (feed_to_item src) feed))))"

text \<open>The lists a fetch cycle hands to \<open>renderResults\<close>.\<close>

definition rendered :: "event list \<Rightarrow> result list list" where
  "rendered evs = concat (map (\<lambda>e. case e of Render rs \<Rightarrow> [rs] | _ \<Rightarrow> []) evs)"

text \<open>
  The limiter and ranker, in the words of the specification. The effective limit of a
  source is its override when one is set, else the global limit; the publish time of a
  matched item counts as 0 when it is missing; the groups are the matched items of each
  source in arrival order, each cut to the head of the length of its effective limit,
  one after the other.
\<close>

definition effective_limit :: "state \<Rightarrow> source_key \<Rightarrow> int" where
  "effective_limit st k = (case limits st k of Some n \<Rightarrow> n | None \<Rightarrow> globalResultLimit st)"

definition time_stamp :: "result \<Rightarrow> int" where
  "time_stamp r = (case date (item r) of Some t \<Rightarrow> t | None \<Rightarrow> 0)"

definition from_source :: "source_name \<Rightarrow> result list \<Rightarrow> result list" where
  "from_source s final = filter (\<lambda>r. source (item r) = s) final"

definition truncated_groups :: "state \<Rightarrow> result list \<Rightarrow> result list" where
  "truncated_groups st final =
     take (nat (effective_limit st KReddit)) (from_source Reddit final) @
     take (nat (effective_limit st KHn)) (from_source HackerNews final) @
     take (nat (effective_limit st KDdg)) (from_source DuckDuckGo final)"

text \<open>What the branch for \<open>+\<close> and \<open>-\<close> does to one keyword set.\<close>

definition keyword_op :: "bool \<Rightarrow> string \<Rightarrow> string list \<Rightarrow> string list" where
  "keyword_op adding kw xs = (if adding then set_add xs kw else set_delete xs kw)"

text \<open>
  The expression of a keyword matches a text at index \<open>i\<close>: what \<open>regex.test\<close> and
  \<open>replace\<close> look for at each position.
\<close>

definition char_before :: "string \<Rightarrow> nat \<Rightarrow> char option" where
  "char_before text i = (if i = 0 then None else Some (text ! (i - 1)))"

definition matches_at :: "string \<Rightarrow> string \<Rightarrow> nat \<Rightarrow> bool" where
  "matches_at kw text i \<longleftrightarrow>
     i \<le> length text \<and> match_here (keywordRegex kw) (char_before text i) (drop i text) \<noteq> None"

text \<open>A match of the expression starts at one of the first \<open>k + 1\<close> positions.\<close>

definition starts_within :: "atom list \<Rightarrow> char option \<Rightarrow> string \<Rightarrow> nat \<Rightarrow> bool" where
  "starts_within r prev s k \<longleftrightarrow>
     (\<exists>i \<in> {..k}. match_here r (if i = 0 then prev else Some (s ! (i - 1))) (drop i s) \<noteq> None)"

text \<open>
  A whole-word occurrence, in the words of the specification. The word characters are
  the letters, the digits and the underscore; two characters are the same letter when
  they are equal or are the small and the capital form of one of the 26 letters. The
  keyword stands in the text at index \<open>i\<close>, letter case aside, and is no part of a
  longer word: the character before it, if there is one, is no word character, nor is
  the one after it.
\<close>

definition word_characters :: string where
  "word_characters =
     ''abcdefghijklmnopqrstuvwxyz'' @ ''ABCDEFGHIJKLMNOPQRSTUVWXYZ'' @ ''0123456789_''"

definition in_word :: "char \<Rightarrow> bool" where
  "in_word c \<longleftrightarrow> c \<in> set word_characters"

definition letter_pairs :: "(char \<times> char) list" where
  "letter_pairs = zip ''abcdefghijklmnopqrstuvwxyz'' ''ABCDEFGHIJKLMNOPQRSTUVWXYZ''"

definition same_letter :: "char \<Rightarrow> char \<Rightarrow> bool" where
  "same_letter c d \<longleftrightarrow> c = d \<or> (c, d) \<in> set letter_pairs \<or> (d, c) \<in> set letter_pairs"

definition same_letters :: "string \<Rightarrow> string \<Rightarrow> bool" where
  "same_letters a b \<longleftrightarrow> list_all2 same_letter a b"

definition whole_word_at :: "string \<Rightarrow> string \<Rightarrow> nat \<Rightarrow> bool" where
  "whole_word_at kw text i \<longleftrightarrow>
     i + length kw \<le> length text \<and>
     same_letters (take (length kw) (drop i text)) kw \<and>
     (i = 0 \<or> \<not> in_word (text ! (i - 1))) \<and>
     (i + length kw = length text \<or> \<not> in_word (text ! (i + length kw)))"

definition whole_word_occurrence :: "string \<Rightarrow> string \<Rightarrow> bool" where
  "whole_word_occurrence kw text \<longleftrightarrow> (\<exists>i \<in> {..length text}. whole_word_at kw text i)"

text \<open>A text of ASCII characters only.\<close>

definition ascii :: "string \<Rightarrow> bool" where
  "ascii s \<longleftrightarrow> (\<forall>c \<in> set s. code c < 128)"

section \<open>Example inputs\<close>

definition fs0 :: filesys where
  "fs0 = \<lparr> entries = [], write_error = (\<lambda>_. None) \<rparr>"

definition malformed_file :: loaded_data where
  "malformed_file = \<lparr> ld_keywords = Some \<lparr> lk_reddit = Some [''pi''], lk_hn = Some [], lk_ddg = Some [] \<rparr>,
     ld_limits = Some (\<lambda>_. None), ld_globalResultLimit = Some 7, ld_fetchIntervalMinutes = None \<rparr>"

definition fs_malformed :: filesys where
  "fs_malformed = \<lparr> entries = [(''work.json'', Json malformed_file)], write_error = (\<lambda>_. None) \<rparr>"

definition zero_limit_state :: state where
  "zero_limit_state = initial_state\<lparr> globalResultLimit := 0 \<rparr>"

definition pi_state :: state where
  "pi_state = initial_state\<lparr> statekeywords := (\<lambda>k. if k = KReddit then [''pi''] else []) \<rparr>"

definition kw_everywhere :: state where
  "kw_everywhere = initial_state\<lparr> statekeywords := (\<lambda>_. [''kw'']) \<rparr>"

definition blank_everywhere :: state where
  "blank_everywhere = initial_state\<lparr> statekeywords := (\<lambda>_. ['' '']) \<rparr>"

definition pi_everywhere :: state where
  "pi_everywhere = initial_state\<lparr> statekeywords := (\<lambda>_. [''pi'']) \<rparr>"

definition go_pi_state :: state where
  "go_pi_state = initial_state\<lparr> statekeywords := (\<lambda>k. if k = KReddit then [''go''] else if k = KHn then [''pi''] else []) \<rparr>"

definition cpp_state :: state where
  "cpp_state = initial_state\<lparr> statekeywords := (\<lambda>k. if k = KDdg then [''c++''] else []) \<rparr>"

definition linked_item :: raw_item where
  "linked_item = \<lparr> source = Reddit, title = Some ''Raspberry Pi 5 is great'', link = Some ''https://a.example/1'',
     date = Some 1700000000000, snippet = ''a review'', rawContent = [] \<rparr>"

definition unlinked_item :: raw_item where
  "unlinked_item = linked_item\<lparr> link := None \<rparr>"

definition hn_feed_item :: feed_item where
  "hn_feed_item = \<lparr> fi_title = Some ''Raspberry Pi 5 is great'', fi_link = Some ''https://a.example/1'',
     fi_isoDate = Some 1700000000000, fi_contentSnippet = '' a review '', fi_contentText = [], fi_content = [] \<rparr>"

definition flaky_network :: network where
  "flaky_network = \<lparr> parseURL = (\<lambda>s kw. if s = Reddit then Rejected ''timeout'' else Resolved [hn_feed_item]),
     scrape = (\<lambda>kw. Rejected ''timeout''), completion = [2, 0, 1] \<rparr>"

definition reddit_result :: "int \<Rightarrow> result" where
  "reddit_result t = \<lparr> item = linked_item\<lparr> date := Some t \<rparr>, matchedKeywords = [''pi''],
     highlightedSnippet = ''a review'' \<rparr>"

definition ddg_result :: result where
  "ddg_result = \<lparr> item = linked_item\<lparr> source := DuckDuckGo, date := None \<rparr>, matchedKeywords = [''pi''],
     highlightedSnippet = ''a review'' \<rparr>"

definition hn_result :: "int \<Rightarrow> result" where
  "hn_result t = \<lparr> item = linked_item\<lparr> source := HackerNews, date := Some t \<rparr>, matchedKeywords = [''pi''],
     highlightedSnippet = ''a review'' \<rparr>"

definition six_results :: "result list" where
  "six_results = [reddit_result 100, ddg_result, reddit_result 200, reddit_result 300, hn_result 150,
     hn_result 250]"

definition two_reddit :: state where
  "two_reddit = initial_state\<lparr> limits := (\<lambda>k. if k = KReddit then Some 2 else None),
     globalResultLimit := 1 \<rparr>"

definition negative_file :: loaded_data where
  "negative_file = \<lparr> ld_keywords = Some \<lparr> lk_reddit = Some [''pi''], lk_hn = Some [], lk_ddg = Some [] \<rparr>,
     ld_limits = Some (\<lambda>k. if k = KReddit then Some (- 1) else None), ld_globalResultLimit = Some 10,
     ld_fetchIntervalMinutes = Some 5 \<rparr>"

definition fs_negative :: filesys where
  "fs_negative = \<lparr> entries = [(''work.json'', Json negative_file)], write_error = (\<lambda>_. None) \<rparr>"

definition negative_state :: state where
  "negative_state = \<lparr> statekeywords = (\<lambda>k. case k of KReddit \<Rightarrow> [''pi''] | KHn \<Rightarrow> [] | KDdg \<Rightarrow> []),
     limits = (\<lambda>k. if k = KReddit then Some (- 1) else None), globalResultLimit = 10,
     fetchIntervalMinutes = 5, isFetching = False, fetchIntervalId = Some 300000 \<rparr>"

definition piano_item :: raw_item where
  "piano_item = linked_item\<lparr> title := Some ''piano'', link := Some ''https://a.example/2'',
     snippet := ''lessons'' \<rparr>"

definition cpp_item :: raw_item where
  "cpp_item = linked_item\<lparr> title := Some ''c++'', snippet := ''rocks'' \<rparr>"

text \<open>\<open>pi\<close>, n with tilde, \<open>ata\<close>.\<close>

definition pinata_item :: raw_item where
  "pinata_item = linked_item\<lparr> title := Some (''pi'' @ [CHR 0xF1] @ ''ata''), snippet := ''party'' \<rparr>"

text \<open>An entry of a feed without a \<open>title\<close> element.\<close>

definition untitled_feed_item :: feed_item where
  "untitled_feed_item = \<lparr> fi_title = None, fi_link = Some ''https://a.example/3'',
     fi_isoDate = Some 1700000000000, fi_contentSnippet = ''pi day'', fi_contentText = [], fi_content = [] \<rparr>"

definition untitled_network :: network where
  "untitled_network = \<lparr> parseURL = (\<lambda>s kw. if s = Reddit then Rejected ''timeout'' else Resolved [untitled_feed_item]),
     scrape = (\<lambda>kw. Resolved []), completion = [0, 1, 2] \<rparr>"

section \<open>Properties of the insertion-ordered sets\<close>

lemma set_add_distinct: "distinct xs \<Longrightarrow> distinct (set_add xs x)"
  by (simp add: set_add_def)

lemma set_set_add: "set (set_add xs x) = insert x (set xs)"
  by (auto simp: set_add_def)

lemma foldl_set_add_distinct: "distinct acc \<Longrightarrow> distinct (foldl set_add acc xs)"
  by (induction xs arbitrary: acc) (simp_all add: set_add_distinct)

lemma foldl_set_add_append:
  "distinct (acc @ xs) \<Longrightarrow> foldl set_add acc xs = acc @ xs"
proof (induction xs arbitrary: acc)
  case Nil
  then show ?case by simp
next
  case (Cons x xs)
  from Cons.prems have "x \<notin> set acc" by auto
  then have step: "set_add acc x = acc @ [x]" by (simp add: set_add_def)
  from Cons.prems have "distinct ((acc @ [x]) @ xs)" by auto
  then have "foldl set_add (acc @ [x]) xs = (acc @ [x]) @ xs" by (rule Cons.IH)
  with step show ?case by simp
qed

lemma new_Set_distinct_id: "distinct xs \<Longrightarrow> new_Set xs = xs"
  using foldl_set_add_append [of "[]" xs] by (simp add: new_Set_def)

lemma distinct_new_Set: "distinct (new_Set xs)"
  by (simp add: new_Set_def foldl_set_add_distinct)

lemma set_foldl_set_add: "set (foldl set_add acc xs) = set acc \<union> set xs"
  by (induction xs arbitrary: acc) (auto simp: set_set_add)

lemma set_new_Set: "set (new_Set xs) = set xs"
  by (simp add: new_Set_def set_foldl_set_add)

lemma set_delete_distinct: "distinct xs \<Longrightarrow> distinct (set_delete xs x)"
  by (simp add: set_delete_def distinct_removeAll)

lemma set_delete_add_absent: "x \<notin> set xs \<Longrightarrow> set_delete (set_add xs x) x = xs"
  by (simp add: set_add_def set_delete_def)

section \<open>Characters\<close>

lemma code_inj: "code c = code d \<longleftrightarrow> c = d"
  by (simp add: code_def)

lemma code_char_of: "n < 256 \<Longrightarrow> code (char_of n) = n"
  by (simp add: code_def)

lemma code_less: "code c < 256"
  by (simp add: code_def)

lemma code_canonicalize:
  "code (canonicalize c) =
     (if (97 \<le> code c \<and> code c \<le> 122) \<or> (224 \<le> code c \<and> code c \<le> 254 \<and> code c \<noteq> 247)
      then code c - 32 else code c)"
  using code_char_of [of "code c - 32"] code_less [of c] by (auto simp: canonicalize_def)

lemma word_char_canonicalize: "is_word_char (canonicalize c) \<longleftrightarrow> is_word_char c"
  unfolding is_word_char_def code_canonicalize by (simp split: if_splits) arith

lemma canonicalize_eq_word_char:
  assumes "canonicalize c = canonicalize d"
  shows "is_word_char c \<longleftrightarrow> is_word_char d"
  using word_char_canonicalize [of c] word_char_canonicalize [of d] assms by simp

text \<open>
  The word characters and the letters of the specification are those of the regular
  expression, for the characters of ASCII.
\<close>

lemma in_word_iff: "in_word c \<longleftrightarrow> is_word_char c"
  unfolding in_word_def word_characters_def is_word_char_def
  apply (simp add: code_inj [symmetric, of c])
  apply (simp add: code_def)
  apply arith
  done

lemma letter_pairs_iff:
  "(c, d) \<in> set letter_pairs \<longleftrightarrow> 97 \<le> code c \<and> code c \<le> 122 \<and> code c = code d + 32"
  unfolding letter_pairs_def
  apply (simp add: code_inj [symmetric, of c] code_inj [symmetric, of d])
  apply (simp add: code_def)
  apply arith
  done

lemma same_letter_iff:
  assumes "code c < 128"
  shows "same_letter c d \<longleftrightarrow> canonicalize c = canonicalize d"
proof -
  have "canonicalize c = canonicalize d \<longleftrightarrow> code (canonicalize c) = code (canonicalize d)"
    by (simp add: code_inj)
  also have "\<dots> \<longleftrightarrow> code c = code d \<or> (97 \<le> code c \<and> code c \<le> 122 \<and> code c = code d + 32) \<or>
      (97 \<le> code d \<and> code d \<le> 122 \<and> code d = code c + 32)"
    unfolding code_canonicalize using assms code_less [of d] by (auto split: if_splits)
  also have "\<dots> \<longleftrightarrow> same_letter c d"
    by (simp add: same_letter_def letter_pairs_iff code_inj)
  finally show ?thesis by simp
qed

lemma same_letters_iff:
  "ascii xs \<Longrightarrow> same_letters xs ys \<longleftrightarrow> map canonicalize xs = map canonicalize ys"
proof (induction xs arbitrary: ys)
  case Nil
  then show ?case by (simp add: same_letters_def)
next
  case (Cons x xs)
  from Cons.prems have x: "code x < 128" and xs: "ascii xs" by (simp_all add: ascii_def)
  show ?case
  proof (cases ys)
    case Nil
    then show ?thesis by (simp add: same_letters_def)
  next
    case (Cons y ys')
    from Cons.IH [OF xs, of ys'] same_letter_iff [OF x, of y] Cons
    show ?thesis by (simp add: same_letters_def)
  qed
qed

lemma ascii_append: "ascii (xs @ ys) \<longleftrightarrow> ascii xs \<and> ascii ys"
  by (auto simp: ascii_def)

lemma ascii_take_drop: "ascii s \<Longrightarrow> ascii (take n (drop i s))"
  by (auto simp: ascii_def dest: in_set_takeD in_set_dropD)

lemma char_of_eq_iff: "char_of n = c \<longleftrightarrow> n mod 256 = code c"
  using code_inj [of "char_of n" c] by (simp add: code_def)

lemma eq_char_of_iff: "c = char_of n \<longleftrightarrow> code c = n mod 256"
  using code_inj [of c "char_of n"] by (simp add: code_def)

section \<open>Evaluation\<close>

lemmas eval_chars = code_def is_space_def is_word_char_def is_digit_def toLowerCase_def canonicalize_def
  dquote_def squote_def char_of_eq_iff eq_char_of_iff

lemmas eval_command = handleCommand_def quoted_def startsWith_def endsWith_def strip_quotes_def
  targetSources_def source_of_name_def sources_def key_name_def finish_def update_keywords_def
  update_keyword_def set_add_def set_delete_def autosaveState_def saveState_def writeFile_def
  DEFAULT_SETTINGS_FILE_def savableState_def limit_command_def set_command_def truthy_def arg_def
  parseInt_arg_def parseInt_def digits_value_def to_double_def

lemmas eval_match = match_item_def scanned_text_def title_text_def findAndHighlightKeywords_def
  highlight_step_def keywordRegex_def word_before_def word_at_def set_add_def bold_def
  replace_bold.simps

section \<open>Numbers\<close>

lemma bit_length_numeral:
  "bit_length (numeral (Num.Bit0 n)) = Suc (bit_length (numeral n))"
  "bit_length (numeral (Num.Bit1 n)) = Suc (bit_length (numeral n))"
  "bit_length 1 = 1"
  "bit_length (Suc 0) = 1"
  by (subst bit_length.simps, simp add: bit_length.simps)+

text \<open>An integer that no double holds is rounded by \<open>parseInt\<close>.\<close>

lemma parseInt_rounds: "parseInt ''9007199254740993'' = Some 9007199254740992"
  by (simp add: parseInt_def digits_value_def to_double_def bit_length_numeral Let_def eval_chars)

section \<open>Loading a settings file\<close>

text \<open>
  Claim C6. Whatever the state in memory, loading a file whose contents lack the keyword
  sets, the limits map or the field \<open>fetchIntervalMinutes\<close> logs the error of a
  malformed configuration and leaves the whole state as it was.
\<close>

theorem loadState_malformed:
  assumes "readFile fs filename = Inr (Json loadedData)"
    and "ld_keywords loadedData = None \<or> ld_limits loadedData = None \<or>
         ld_fetchIntervalMinutes loadedData = None"
  shows "loadState filename fs st =
           (st, [ErrorLoadingState filename ''Invalid or corrupt settings file.''])"
proof -
  from assms(2) have "applyState loadedData st = (st, Some (Error ''Invalid or corrupt settings file.''))"
    by (auto simp: applyState_def split: option.splits)
  with assms(1) show ?thesis
    by (simp add: loadState_def JSON_parse_def error_message_def)
qed

text \<open>The theorem at a concrete input.\<close>

theorem loadState_malformed_witness:
  "loadState ''work.json'' fs_malformed (initial_state\<lparr> globalResultLimit := 3 \<rparr>) =
     (initial_state\<lparr> globalResultLimit := 3 \<rparr>,
      [ErrorLoadingState ''work.json'' ''Invalid or corrupt settings file.''])"
  using loadState_malformed [of fs_malformed "''work.json''" malformed_file "initial_state\<lparr> globalResultLimit := 3 \<rparr>"]
  by (simp add: readFile_def fs_malformed_def malformed_file_def)

section \<open>Saving and loading\<close>

lemma applyState_savableState:
  assumes "\<forall>k. distinct (statekeywords c k)" and "globalResultLimit c \<noteq> 0"
  shows "applyState (savableState c) st =
    (st\<lparr> statekeywords := statekeywords c, limits := limits c, globalResultLimit := globalResultLimit c,
         fetchIntervalMinutes := fetchIntervalMinutes c,
         fetchIntervalId := Some (fetchIntervalMinutes c * 60 * 1000) \<rparr>, None)"
proof -
  have "(\<lambda>k. case k of KReddit \<Rightarrow> new_Set (statekeywords c KReddit) | KHn \<Rightarrow> new_Set (statekeywords c KHn)
        | KDdg \<Rightarrow> new_Set (statekeywords c KDdg)) = statekeywords c"
    using assms(1) by (auto simp: fun_eq_iff new_Set_distinct_id split: source_key.splits)
  then show ?thesis using assms(2)
    by (simp add: applyState_def savableState_def or_empty_def or_ten_def restartFetchInterval_def)
qed

lemma readFile_put_entry: "map_of (put_entry n c es) n = Some c"
  by (induction es) auto

lemma save_load_roundtrip:
  assumes "saveState filename c fs = (True, fs', msgs)"
    and "\<forall>k. distinct (statekeywords c k)" and "globalResultLimit c \<noteq> 0"
  shows "statekeywords (fst (loadState filename fs' st)) = statekeywords c \<and>
         limits (fst (loadState filename fs' st)) = limits c \<and>
         globalResultLimit (fst (loadState filename fs' st)) = globalResultLimit c \<and>
         fetchIntervalMinutes (fst (loadState filename fs' st)) = fetchIntervalMinutes c"
proof -
  from assms(1) have "readFile fs' filename = Inr (Json (savableState c))"
    by (auto simp: saveState_def writeFile_def readFile_def readFile_put_entry split: option.splits)
  then show ?thesis
    using applyState_savableState [OF assms(2,3), of st]
    by (simp add: loadState_def JSON_parse_def)
qed

text \<open>
  Claim C5, at an input where the round trip fails. The command \<open>set list 0\<close> is
  accepted and sets the global limit to 0; the state is saved with it; loading the file
  that was saved gives the global limit 10, since \<open>applyState\<close> reads the field
  with \<open>|| 10\<close>.
\<close>

theorem save_load_zero_global_limit:
  "handleCommand ''set list 0'' initial_state fs0 =
     Inr (zero_limit_state, fst (snd (saveState ''settings.json'' zero_limit_state fs0)),
          [Log (GlobalLimitSet 0), Autosave]) \<and>
   fst (saveState ''settings.json'' zero_limit_state fs0) \<and>
   globalResultLimit
     (fst (loadState ''settings.json'' (fst (snd (saveState ''settings.json'' zero_limit_state fs0)))
        initial_state)) = 10"
  by (simp add: eval_command eval_chars zero_limit_state_def initial_state_def fs0_def
      loadState_def readFile_def JSON_parse_def applyState_def or_ten_def restartFetchInterval_def)

section \<open>Adding and removing keywords\<close>

lemma set_add_idem: "set_add (set_add xs x) x = set_add xs x"
  by (simp add: set_add_def)

lemma set_delete_idem: "set_delete (set_delete xs x) x = set_delete xs x"
  by (simp add: set_delete_def)

lemma keyword_op_idem: "keyword_op b kw (keyword_op b kw xs) = keyword_op b kw xs"
  by (simp add: keyword_op_def set_add_idem set_delete_idem)

lemma update_keyword_more:
  "limits (update_keyword b kw st s) = limits st"
  "globalResultLimit (update_keyword b kw st s) = globalResultLimit st"
  "fetchIntervalMinutes (update_keyword b kw st s) = fetchIntervalMinutes st"
  "isFetching (update_keyword b kw st s) = isFetching st"
  "fetchIntervalId (update_keyword b kw st s) = fetchIntervalId st"
  "state.more (update_keyword b kw st s) = state.more st"
  by (simp_all add: update_keyword_def)

lemma foldl_update_keyword_keywords:
  "statekeywords (foldl (update_keyword b kw) st targets) s =
     (if s \<in> set targets then keyword_op b kw (statekeywords st s) else statekeywords st s)"
proof (induction targets arbitrary: st)
  case Nil
  then show ?case by simp
next
  case (Cons t targets)
  have step: "statekeywords (update_keyword b kw st t) =
      (statekeywords st)(t := keyword_op b kw (statekeywords st t))"
    by (simp add: update_keyword_def keyword_op_def)
  show ?case
    by (simp add: Cons.IH step keyword_op_idem)
qed

lemma foldl_update_keyword_rest:
  "limits (foldl (update_keyword b kw) st targets) = limits st \<and>
   globalResultLimit (foldl (update_keyword b kw) st targets) = globalResultLimit st \<and>
   fetchIntervalMinutes (foldl (update_keyword b kw) st targets) = fetchIntervalMinutes st \<and>
   isFetching (foldl (update_keyword b kw) st targets) = isFetching st \<and>
   fetchIntervalId (foldl (update_keyword b kw) st targets) = fetchIntervalId st \<and>
   state.more (foldl (update_keyword b kw) st targets) = state.more st"
  by (induction targets arbitrary: st) (simp_all add: update_keyword_more)

lemma update_keywords_single:
  "update_keywords b targets [kw] st = foldl (update_keyword b kw) st targets"
  by (simp add: update_keywords_def)

lemma update_keywords_Cons:
  "update_keywords b targets (kw # args) st =
     update_keywords b targets args (foldl (update_keyword b kw) st targets)"
  by (simp add: update_keywords_def)

lemma add_then_remove_keywords:
  "statekeywords (update_keywords False targets [k] (update_keywords True targets [k] st)) s =
     (if s \<in> set targets then set_delete (statekeywords st s) k else statekeywords st s)"
  by (simp add: update_keywords_single foldl_update_keyword_keywords keyword_op_def
      set_add_def set_delete_def)

lemma add_then_remove_rest:
  "limits (update_keywords False targets [k] (update_keywords True targets [k] st)) = limits st \<and>
   globalResultLimit (update_keywords False targets [k] (update_keywords True targets [k] st)) = globalResultLimit st \<and>
   fetchIntervalMinutes (update_keywords False targets [k] (update_keywords True targets [k] st)) = fetchIntervalMinutes st \<and>
   isFetching (update_keywords False targets [k] (update_keywords True targets [k] st)) = isFetching st \<and>
   fetchIntervalId (update_keywords False targets [k] (update_keywords True targets [k] st)) = fetchIntervalId st \<and>
   state.more (update_keywords False targets [k] (update_keywords True targets [k] st)) = state.more st"
  by (simp add: update_keywords_single foldl_update_keyword_rest)

lemma set_delete_absent: "set_delete xs k = xs \<longleftrightarrow> k \<notin> set xs"
proof
  assume "set_delete xs k = xs"
  then have "set xs = set (removeAll k xs)" by (simp add: set_delete_def)
  then show "k \<notin> set xs" by auto
next
  assume "k \<notin> set xs"
  then show "set_delete xs k = xs" by (simp add: set_delete_def)
qed

section \<open>Adding, then removing\<close>

text \<open>
  Claim C7, amended. For every keyword \<open>k\<close> and every scope, adding \<open>k\<close> and then
  removing it gives back the state exactly when \<open>k\<close> was in none of the keyword sets
  of the scope before: a keyword that was there is gone after the removal.
\<close>

theorem add_then_remove_roundtrip:
  "update_keywords False (targetSources scope) [k] (update_keywords True (targetSources scope) [k] st) = st
   \<longleftrightarrow> (\<forall>s \<in> set (targetSources scope). k \<notin> set (statekeywords st s))"
proof
  let ?st' = "update_keywords False (targetSources scope) [k] (update_keywords True (targetSources scope) [k] st)"
  assume eq: "?st' = st"
  show "\<forall>s \<in> set (targetSources scope). k \<notin> set (statekeywords st s)"
  proof
    fix s assume s: "s \<in> set (targetSources scope)"
    from eq have "statekeywords ?st' s = statekeywords st s" by simp
    with s have "set_delete (statekeywords st s) k = statekeywords st s"
      by (simp add: add_then_remove_keywords)
    then show "k \<notin> set (statekeywords st s)" by (simp add: set_delete_absent)
  qed
next
  let ?st' = "update_keywords False (targetSources scope) [k] (update_keywords True (targetSources scope) [k] st)"
  assume absent: "\<forall>s \<in> set (targetSources scope). k \<notin> set (statekeywords st s)"
  have "statekeywords ?st' s = statekeywords st s" for s
    using absent by (auto simp: add_then_remove_keywords set_delete_absent)
  then have "statekeywords ?st' = statekeywords st" by (simp add: fun_eq_iff)
  then show "?st' = st"
    using add_then_remove_rest [of "targetSources scope" k st] by (simp add: state.equality)
qed

text \<open>The theorem at a concrete input.\<close>

theorem add_then_remove_roundtrip_witness:
  "update_keywords False (targetSources ''reddit'') [''go'']
     (update_keywords True (targetSources ''reddit'') [''go''] pi_state) = pi_state"
proof -
  have "\<forall>s \<in> set (targetSources ''reddit''). ''go'' \<notin> set (statekeywords pi_state s)"
    by (simp add: targetSources_def source_of_name_def sources_def key_name_def pi_state_def)
  then show ?thesis using add_then_remove_roundtrip [of "''reddit''" "''go''" pi_state] by simp
qed

text \<open>
  Claim C7 as stated fails: \<open>pi\<close> is a keyword of reddit; after adding it to reddit
  and removing it from reddit, the state is not the one before.
\<close>

theorem add_then_remove_present_counterexample:
  "update_keywords False (targetSources ''reddit'') [''pi'']
     (update_keywords True (targetSources ''reddit'') [''pi''] pi_state) \<noteq> pi_state"
proof
  assume "update_keywords False (targetSources ''reddit'') [''pi'']
     (update_keywords True (targetSources ''reddit'') [''pi''] pi_state) = pi_state"
  then have "statekeywords (update_keywords False (targetSources ''reddit'') [''pi'']
     (update_keywords True (targetSources ''reddit'') [''pi''] pi_state)) KReddit = statekeywords pi_state KReddit"
    by simp
  then show False
    by (simp add: add_then_remove_keywords targetSources_def source_of_name_def sources_def key_name_def
        pi_state_def set_delete_def)
qed

section \<open>Unknown sources\<close>

lemma update_keywords_unknown_source:
  "update_keywords True (targetSources ''foo'') [''kw''] initial_state = kw_everywhere"
proof -
  have t: "targetSources ''foo'' = sources"
    by (simp add: targetSources_def source_of_name_def sources_def key_name_def)
  have all: "s \<in> set sources" for s
    by (cases s) (simp_all add: sources_def)
  have "statekeywords (update_keywords True sources [''kw''] initial_state) s = [''kw'']" for s
    using all [of s]
    by (simp add: update_keywords_single foldl_update_keyword_keywords keyword_op_def
        initial_state_def set_add_def)
  then have "statekeywords (update_keywords True sources [''kw''] initial_state) = (\<lambda>_. [''kw''])"
    by (simp add: fun_eq_iff)
  then show ?thesis
    using foldl_update_keyword_rest [of True "''kw''" initial_state sources]
    by (simp add: t kw_everywhere_def update_keywords_single state.equality)
qed

text \<open>
  Claim C8, at an input where the code does otherwise. The command \<open>+foo "kw"\<close> names
  no source: the keyword is added to all three sources, the line \<open>Keywords updated\<close>
  is logged, a fetch cycle starts and the state is autosaved. The branch for \<open>~\<close>
  rejects the same source with \<open>Invalid source\<close> and changes nothing.
\<close>

theorem unknown_source_adds_everywhere:
  \<open>handleCommand ''+foo "kw"'' initial_state fs0 =
     Inr (kw_everywhere, fst (autosaveState kw_everywhere fs0),
          [Log KeywordsUpdated, FetchAllData ''Fetching for new keywords...'', Autosave]) \<and>
   handleCommand ''~foo 5'' initial_state fs0 = Inr (initial_state, fs0, [Log (InvalidSource ''foo'')])\<close>
proof -
  have tok: \<open>tokenize ''+foo "kw"'' = [''+foo'', [dquote, CHR ''k'', CHR ''w'', dquote]]\<close>
    by (simp add: quoted_def eval_chars)
  have tok2: \<open>tokenize ''~foo 5'' = [''~foo'', ''5'']\<close>
    by (simp add: quoted_def eval_chars)
  have 1: \<open>handleCommand ''+foo "kw"'' initial_state fs0 =
     Inr (kw_everywhere, fst (autosaveState kw_everywhere fs0),
          [Log KeywordsUpdated, FetchAllData ''Fetching for new keywords...'', Autosave])\<close>
    unfolding handleCommand_def tok
    by (simp add: startsWith_def strip_quotes_def eval_chars update_keywords_unknown_source finish_def
        autosaveState_def saveState_def writeFile_def fs0_def)
  have 2: "handleCommand ''~foo 5'' initial_state fs0 = Inr (initial_state, fs0, [Log (InvalidSource ''foo'')])"
    unfolding handleCommand_def tok2
    by (simp add: startsWith_def strip_quotes_def eval_chars limit_command_def source_of_name_def
        sources_def key_name_def)
  from 1 2 show ?thesis by simp
qed

section \<open>Blank keywords\<close>

lemma set_update_keywords_add:
  "set (statekeywords (update_keywords True targets args st) s) =
     set (statekeywords st s) \<union> (if s \<in> set targets then set args else {})"
proof (induction args arbitrary: st)
  case Nil
  then show ?case by (simp add: update_keywords_def)
next
  case (Cons kw args)
  show ?case
    by (auto simp: update_keywords_Cons Cons.IH foldl_update_keyword_keywords keyword_op_def set_set_add)
qed

lemma handleCommand_add:
  assumes "command \<noteq> []" and "tokenize command = p # ps" and "startsWith (map toLowerCase p) ''+''"
  shows "handleCommand command st fs =
     finish True (update_keywords True (targetSources (drop 1 (map toLowerCase p))) (map strip_quotes ps) st) fs
       [Log KeywordsUpdated, FetchAllData ''Fetching for new keywords...'']"
  using assms by (simp add: handleCommand_def)

text \<open>
  Claim C9, amended. An argument of an add command that is empty after trimming is not
  rejected: the command raises no error, the argument is in the keyword set of every
  source of the scope afterwards, and the state is autosaved.
\<close>

theorem blank_keyword_is_added:
  assumes "command \<noteq> []" and "tokenize command = p # ps" and "startsWith (map toLowerCase p) ''+''"
    and "kw \<in> set (map strip_quotes ps)" and "trim kw = []"
  shows "\<exists>st' fs' evs. handleCommand command st fs = Inr (st', fs', evs) \<and> Autosave \<in> set evs \<and>
           (\<forall>s \<in> set (targetSources (drop 1 (map toLowerCase p))). kw \<in> set (statekeywords st' s))"
proof -
  let ?T = "targetSources (drop 1 (map toLowerCase p))"
  let ?st' = "update_keywords True ?T (map strip_quotes ps) st"
  have "handleCommand command st fs =
      Inr (?st', fst (autosaveState ?st' fs),
           [Log KeywordsUpdated, FetchAllData ''Fetching for new keywords...''] @ [Autosave] @
             map Log (snd (autosaveState ?st' fs)))"
    using handleCommand_add [OF assms(1,2,3), of st fs] by (simp add: finish_def)
  moreover have "\<forall>s \<in> set ?T. kw \<in> set (statekeywords ?st' s)"
    using assms(4) by (simp add: set_update_keywords_add)
  ultimately show ?thesis by auto
qed

text \<open>The theorem at a concrete input.\<close>

theorem blank_keyword_is_added_witness:
  \<open>\<exists>st' fs' evs. handleCommand ''+ " "'' initial_state fs0 = Inr (st', fs', evs) \<and> Autosave \<in> set evs \<and>
      '' '' \<in> set (statekeywords st' KReddit) \<and> '' '' \<in> set (statekeywords st' KHn) \<and>
      '' '' \<in> set (statekeywords st' KDdg)\<close>
proof -
  have t: "targetSources [] = sources"
    by (simp add: targetSources_def source_of_name_def sources_def key_name_def)
  have \<open>\<exists>st' fs' evs. handleCommand ''+ " "'' initial_state fs0 = Inr (st', fs', evs) \<and> Autosave \<in> set evs \<and>
      (\<forall>s \<in> set (targetSources (drop 1 (map toLowerCase ''+''))). '' '' \<in> set (statekeywords st' s))\<close>
    by (rule blank_keyword_is_added [where ps = "[[dquote, CHR '' '', dquote]]"])
      (simp_all add: quoted_def startsWith_def strip_quotes_def trim_def eval_chars)
  then show ?thesis by (auto simp: t sources_def)
qed

lemma update_keywords_blank:
  "update_keywords True sources ['' ''] initial_state = blank_everywhere"
proof -
  have all: "s \<in> set sources" for s
    by (cases s) (simp_all add: sources_def)
  have "statekeywords (update_keywords True sources ['' ''] initial_state) s = ['' '']" for s
    using all [of s]
    by (simp add: update_keywords_single foldl_update_keyword_keywords keyword_op_def
        initial_state_def set_add_def)
  then have "statekeywords (update_keywords True sources ['' ''] initial_state) = (\<lambda>_. ['' ''])"
    by (simp add: fun_eq_iff)
  then show ?thesis
    using foldl_update_keyword_rest [of True "'' ''" initial_state sources]
    by (simp add: blank_everywhere_def update_keywords_single state.equality)
qed

text \<open>
  Claim C9 as stated fails: the command \<open>+ " "\<close> adds the keyword of one space to
  the three keyword sets, which were empty.
\<close>

theorem blank_keyword_counterexample:
  \<open>trim '' '' = [] \<and> statekeywords initial_state KReddit = [] \<and>
   handleCommand ''+ " "'' initial_state fs0 =
     Inr (blank_everywhere, fst (autosaveState blank_everywhere fs0),
          [Log KeywordsUpdated, FetchAllData ''Fetching for new keywords...'', Autosave]) \<and>
   statekeywords blank_everywhere KReddit = ['' '']\<close>
proof -
  have tok: \<open>tokenize ''+ " "'' = [''+'', [dquote, CHR '' '', dquote]]\<close>
    by (simp add: quoted_def eval_chars)
  have t: "targetSources [] = sources"
    by (simp add: targetSources_def source_of_name_def sources_def key_name_def)
  have \<open>handleCommand ''+ " "'' initial_state fs0 =
     Inr (blank_everywhere, fst (autosaveState blank_everywhere fs0),
          [Log KeywordsUpdated, FetchAllData ''Fetching for new keywords...'', Autosave])\<close>
    unfolding handleCommand_def tok
    by (simp add: startsWith_def strip_quotes_def eval_chars t update_keywords_blank finish_def
        autosaveState_def saveState_def writeFile_def fs0_def)
  then show ?thesis
    by (simp add: trim_def eval_chars initial_state_def blank_everywhere_def)
qed

section \<open>Items without a link\<close>

lemma dedup_step_no_link: "\<not> truthy (link it) \<Longrightarrow> dedup_step m it = m"
  by (auto simp: dedup_step_def truthy_def split: option.splits)

lemma foldl_dedup_links:
  "\<forall>(l, v) \<in> set m. link v = Some l \<and> l \<noteq> [] \<Longrightarrow>
   \<forall>(l, v) \<in> set (foldl dedup_step m xs). link v = Some l \<and> l \<noteq> []"
proof (induction xs arbitrary: m)
  case Nil
  then show ?case by simp
next
  case (Cons x xs)
  have "\<forall>(l, v) \<in> set (dedup_step m x). link v = Some l \<and> l \<noteq> []"
    using Cons.prems by (auto simp: dedup_step_def split: option.splits)
  then show ?case using Cons.IH by simp
qed

lemma unique_values_truthy: "v \<in> set (unique_values xs) \<Longrightarrow> truthy (link v)"
proof -
  assume "v \<in> set (unique_values xs)"
  then obtain l where "(l, v) \<in> set (uniqueResults xs)"
    by (auto simp: unique_values_def)
  moreover have "\<forall>(l, v) \<in> set (foldl dedup_step [] xs). link v = Some l \<and> l \<noteq> []"
    by (rule foldl_dedup_links) simp
  ultimately show ?thesis by (auto simp: uniqueResults_def truthy_def)
qed

lemma match_item_item: "match_item kws it = Inr rs \<Longrightarrow> r \<in> set rs \<Longrightarrow> item r = it"
  by (auto simp: match_item_def Let_def split: if_splits option.splits)

lemma finalResults_item:
  "finalResults kws items = Inr final \<Longrightarrow> r \<in> set final \<Longrightarrow> item r \<in> set items"
proof (induction items arbitrary: final)
  case Nil
  then show ?case by simp
next
  case (Cons it items)
  from Cons.prems(1) obtain rs rest where rs: "match_item kws it = Inr rs"
    and rest: "finalResults kws items = Inr rest" and final: "final = rs @ rest"
    by (auto split: sum.splits)
  from Cons.prems(2) final have "r \<in> set rs \<or> r \<in> set rest" by simp
  then show ?case
  proof
    assume "r \<in> set rs"
    with rs have "item r = it" by (rule match_item_item)
    then show ?thesis by simp
  next
    assume "r \<in> set rest"
    with rest have "item r \<in> set items" by (rule Cons.IH)
    then show ?thesis by simp
  qed
qed

text \<open>
  Claim C1, amended. An item whose link is missing or empty is dropped by the
  deduplication: the unique items are those of the cycle without it, it is none of
  them, and no matched item comes from it.
\<close>

theorem item_without_link_is_dropped:
  assumes "\<not> truthy (link it)"
  shows "unique_values (xs @ it # ys) = unique_values (xs @ ys) \<and>
         it \<notin> set (unique_values (xs @ it # ys)) \<and>
         (\<forall>final. finalResults kws (unique_values (xs @ it # ys)) = Inr final \<longrightarrow>
            (\<forall>r \<in> set final. item r \<noteq> it))"
proof -
  have 1: "unique_values (xs @ it # ys) = unique_values (xs @ ys)"
    using assms by (simp add: unique_values_def uniqueResults_def dedup_step_no_link)
  have 2: "it \<notin> set (unique_values (xs @ it # ys))"
    using assms unique_values_truthy by blast
  have 3: "\<forall>final. finalResults kws (unique_values (xs @ it # ys)) = Inr final \<longrightarrow>
      (\<forall>r \<in> set final. item r \<noteq> it)"
    using 2 finalResults_item by blast
  from 1 2 3 show ?thesis by simp
qed

text \<open>The theorem at a concrete input.\<close>

theorem item_without_link_is_dropped_witness:
  "unique_values ([linked_item] @ unlinked_item # [linked_item]) = unique_values ([linked_item] @ [linked_item]) \<and>
   unlinked_item \<notin> set (unique_values ([linked_item] @ unlinked_item # [linked_item]))"
proof -
  have h: "\<not> truthy (link unlinked_item)"
    by (simp add: unlinked_item_def truthy_def)
  from item_without_link_is_dropped [OF h, of "[linked_item]" "[linked_item]" "[''pi'']"]
  show ?thesis by blast
qed

text \<open>
  Claim C1 as stated fails: an item without a link, alone in its cycle, is not among the
  unique items that reach the matching.
\<close>

theorem item_without_link_counterexample:
  "link unlinked_item = None \<and> unlinked_item \<notin> set (unique_values [unlinked_item])"
  by (simp add: unlinked_item_def unique_values_def uniqueResults_def dedup_step_def)

section \<open>Failing adapters\<close>

lemma fetchRss_items:
  "fst (fetchRss ago src (parseURL net src kw)) =
     Inr (case parseURL net src kw of
            Rejected _ \<Rightarrow> []
          | Resolved feed \<Rightarrow> filter (recent ago) (map (feed_to_item src) feed))"
  by (simp add: fetchRss_def split: outcome.splits)

lemma scrape_items:
  "fst (scrapeDuckDuckGo kw (scrape net kw)) =
     Inr (case scrape net kw of Rejected _ \<Rightarrow> [] | Resolved els \<Rightarrow> concat (map element_to_items els))"
  by (simp add: scrapeDuckDuckGo_def split: outcome.splits)

lemma tasks_items:
  "map fst (allFetchTasks ago net st) = map (\<lambda>task. Inr (items_of_call ago net task)) (fetch_tasks st)"
  by (simp add: allFetchTasks_def fetch_tasks_def items_of_call_def fetchRss_items scrape_items
      comp_def)

lemma Promise_all_Inr: "Promise_all (map (\<lambda>x. Inr (f x)) xs) = Inr (map f xs)"
  by (induction xs) simp_all

lemma tasks_Promise_all:
  "Promise_all (map fst (allFetchTasks ago net st)) = Inr (map (items_of_call ago net) (fetch_tasks st))"
  by (simp add: tasks_items Promise_all_Inr)

lemma tasks_empty_iff: "allFetchTasks ago net st = [] \<longleftrightarrow> fetch_tasks st = []"
  by (simp add: allFetchTasks_def fetch_tasks_def)

lemma rendered_append: "rendered (xs @ ys) = rendered xs @ rendered ys"
  by (simp add: rendered_def)

lemma rendered_Log: "rendered (map Log ms) = []"
  by (induction ms) (simp_all add: rendered_def)

lemma rendered_Cons:
  "rendered (Log m # evs) = rendered evs"
  "rendered (Render rs # evs) = rs # rendered evs"
  "rendered [] = []"
  by (simp_all add: rendered_def)

lemma match_item_titled: "title it \<noteq> None \<Longrightarrow> \<exists>rs. match_item kws it = Inr rs"
  by (auto simp: match_item_def Let_def)

lemma finalResults_titled:
  "\<forall>it \<in> set items. title it \<noteq> None \<Longrightarrow> \<exists>final. finalResults kws items = Inr final"
proof (induction items)
  case Nil
  then show ?case by simp
next
  case (Cons it items)
  from Cons.prems obtain rs where "match_item kws it = Inr rs"
    using match_item_titled [of it kws] by auto
  moreover from Cons obtain rest where "finalResults kws items = Inr rest" by auto
  ultimately show ?case by simp
qed

lemma foldl_dedup_values:
  "snd ` set (foldl dedup_step m xs) \<subseteq> snd ` set m \<union> set xs"
proof (induction xs arbitrary: m)
  case Nil
  then show ?case by simp
next
  case (Cons x xs)
  have "snd ` set (dedup_step m x) \<subseteq> snd ` set m \<union> {x}"
    by (auto simp: dedup_step_def split: option.splits)
  with Cons.IH [of "dedup_step m x"] show ?case by auto
qed

lemma unique_values_subset: "set (unique_values xs) \<subseteq> set xs"
  using foldl_dedup_values [of "[]" xs] by (simp add: unique_values_def uniqueResults_def)

text \<open>
  Failed calls alone do not stop a cycle. In a cycle that starts idle with a call to
  make, where every item of a successful call has a title, the matching loop runs to
  its end on the unique items of the calls, a failed call giving none; the cycle
  renders once, the matched items cut and ordered; it throws nothing and ends idle.
\<close>

lemma successful_calls_are_rendered:
  assumes "\<not> isFetching st" and "fetch_tasks st \<noteq> []"
    and "\<forall>task \<in> set (fetch_tasks st). \<forall>it \<in> set (items_of_call ago net task). title it \<noteq> None"
  shows "\<exists>final.
     finalResults (allKeywords st)
       (unique_values (concat (map (items_of_call ago net) (fetch_tasks st)))) = Inr final \<and>
     fst (fetchAllData header ago net st) = st\<lparr> isFetching := False \<rparr> \<and>
     snd (snd (fetchAllData header ago net st)) = None \<and>
     rendered (fst (snd (fetchAllData header ago net st))) = [displayResults st final]"
proof -
  let ?items = "unique_values (concat (map (items_of_call ago net) (fetch_tasks st)))"
  have "\<forall>it \<in> set ?items. title it \<noteq> None"
    using assms(3) unique_values_subset [of "concat (map (items_of_call ago net) (fetch_tasks st))"]
    by auto
  then obtain final where final: "finalResults (allKeywords st) ?items = Inr final"
    using finalResults_titled by blast
  from assms(2) have ne: "allFetchTasks ago net st \<noteq> []"
    by (simp add: tasks_empty_iff)
  have "fst (fetchAllData header ago net st) = st\<lparr> isFetching := False \<rparr> \<and>
     snd (snd (fetchAllData header ago net st)) = None \<and>
     rendered (fst (snd (fetchAllData header ago net st))) = [displayResults st final]"
    using assms(1) ne final
    by (simp add: fetchAllData_def Let_def tasks_Promise_all rendered_append rendered_Log rendered_Cons)
  with final show ?thesis by blast
qed

text \<open>
  An example: the call for Reddit and the call for DuckDuckGo fail, and the item of the
  call for Hacker News is rendered.
\<close>

lemma successful_calls_are_rendered_example:
  "call_fails flaky_network (Reddit, ''pi'') \<and>
   call_fails flaky_network (DuckDuckGo, ''pi'') \<and>
   fetchAllData ''Update'' 0 flaky_network pi_everywhere =
     (pi_everywhere\<lparr> isFetching := False \<rparr>,
      [Log CheckingForNewItems, Log (ErrorScraping ''pi'' ''timeout''),
       Log (ErrorFetching ''Reddit'' ''timeout''), Log (Header ''Update''),
       Render [\<lparr> item = feed_to_item HackerNews hn_feed_item, matchedKeywords = [''pi''],
                 highlightedSnippet = ''} 5 is great a review'' \<rparr>]],
      None)"
  by (simp add: call_fails_def flaky_network_def fetchAllData_def Let_def allFetchTasks_def
      pi_everywhere_def initial_state_def fetchRss_def scrapeDuckDuckGo_def adapter_lines_def
      source_label_def feed_to_item_def hn_feed_item_def recent_def trim_def unique_values_def
      uniqueResults_def dedup_step_def allKeywords_def new_Set_def eval_match displayResults_def
      limitedResults_def push_limited_def source_names_def slice0_def source_limit_def
      sourceKeyMap_def date_or_zero_def eval_chars)

text \<open>
  Claim C4 fails on the code. The call for Reddit fails, the call for Hacker News gives
  an entry without a title whose snippet has the keyword: the matching loop throws at
  \<open>item.title.length\<close>, so the cycle renders nothing and throws, and it leaves
  \<open>isFetching\<close> set, so the next cycle returns at once.
\<close>

theorem untitled_item_aborts_cycle:
  "call_fails untitled_network (Reddit, ''pi'') \<and>
   items_of_call 0 untitled_network (HackerNews, ''pi'') = [feed_to_item HackerNews untitled_feed_item] \<and>
   title (feed_to_item HackerNews untitled_feed_item) = None \<and>
   fetchAllData ''Update'' 0 untitled_network pi_everywhere =
     (pi_everywhere\<lparr> isFetching := True \<rparr>,
      [Log CheckingForNewItems, Log (ErrorFetching ''Reddit'' ''timeout'')],
      Some (TypeError ''Cannot read properties of undefined'')) \<and>
   fetchAllData ''Update'' 0 flaky_network (pi_everywhere\<lparr> isFetching := True \<rparr>) =
     (pi_everywhere\<lparr> isFetching := True \<rparr>, [], None)"
proof -
  have 1: "call_fails untitled_network (Reddit, ''pi'')"
    by (simp add: call_fails_def untitled_network_def)
  have 2: "items_of_call 0 untitled_network (HackerNews, ''pi'') =
      [feed_to_item HackerNews untitled_feed_item]"
    by (simp add: items_of_call_def untitled_network_def recent_def feed_to_item_def
        untitled_feed_item_def)
  have 3: "title (feed_to_item HackerNews untitled_feed_item) = None"
    by (simp add: feed_to_item_def untitled_feed_item_def)
  have 4: "fetchAllData ''Update'' 0 untitled_network pi_everywhere =
     (pi_everywhere\<lparr> isFetching := True \<rparr>,
      [Log CheckingForNewItems, Log (ErrorFetching ''Reddit'' ''timeout'')],
      Some (TypeError ''Cannot read properties of undefined''))"
    by (simp add: untitled_network_def fetchAllData_def Let_def allFetchTasks_def
        pi_everywhere_def initial_state_def fetchRss_def scrapeDuckDuckGo_def adapter_lines_def
        source_label_def feed_to_item_def untitled_feed_item_def recent_def trim_def
        unique_values_def uniqueResults_def dedup_step_def allKeywords_def new_Set_def eval_match
        eval_chars)
  have 5: "fetchAllData ''Update'' 0 flaky_network (pi_everywhere\<lparr> isFetching := True \<rparr>) =
     (pi_everywhere\<lparr> isFetching := True \<rparr>, [], None)"
    by (simp add: fetchAllData_def)
  from 1 2 3 4 5 show ?thesis by (intro conjI)
qed

section \<open>Limits and order\<close>

lemma foldl_push_limited:
  "foldl push_limited lr final s = lr s @ filter (\<lambda>r. source (item r) = s) final"
  by (induction final arbitrary: lr) (simp_all add: push_limited_def)

lemma limitedResults_from_source: "limitedResults final s = from_source s final"
  by (simp add: limitedResults_def from_source_def foldl_push_limited)

lemma source_limit_effective: "source_limit st s = effective_limit st (sourceKeyMap s)"
  by (simp add: source_limit_def effective_limit_def)

lemma date_or_zero_time_stamp: "date_or_zero = time_stamp"
  by (rule ext) (simp add: date_or_zero_def time_stamp_def split: option.splits)

lemma slice0_take: "0 \<le> n \<Longrightarrow> slice0 xs n = take (nat n) xs"
  by (simp add: slice0_def)

lemma displayResults_sort:
  assumes "\<forall>k. 0 \<le> effective_limit st k"
  shows "displayResults st final = sort_key (\<lambda>r. - time_stamp r) (truncated_groups st final)"
  using assms
  by (simp add: displayResults_def truncated_groups_def limitedResults_from_source source_names_def
      source_limit_effective sourceKeyMap_def date_or_zero_time_stamp slice0_take)

text \<open>
  Claim C3, amended. With effective limits that are not negative, the displayed list is
  the stable sort, latest first, of the groups by source, each cut to the head of its
  arrival order by the effective limit of the source (the override, else the global
  limit), an item without a time stamp counting as time 0. So it is a permutation of
  the truncated groups; it is ordered by time stamp, latest first; items of the same
  time stamp keep the order of the groups put one after the other; and after an item
  without a time stamp come only items whose time stamp is missing or not after the
  epoch.
\<close>

theorem display_truncates_then_sorts:
  assumes "\<forall>k. 0 \<le> effective_limit st k"
  shows "displayResults st final = sort_key (\<lambda>r. - time_stamp r) (truncated_groups st final) \<and>
         mset (displayResults st final) = mset (truncated_groups st final) \<and>
         sorted_wrt (\<lambda>a b. time_stamp b \<le> time_stamp a) (displayResults st final) \<and>
         (\<forall>t. filter (\<lambda>r. time_stamp r = t) (displayResults st final) =
               filter (\<lambda>r. time_stamp r = t) (truncated_groups st final)) \<and>
         (\<forall>i j. i < j \<and> j < length (displayResults st final) \<and>
                date (item (displayResults st final ! i)) = None \<longrightarrow>
                time_stamp (displayResults st final ! j) \<le> 0)"
proof -
  let ?key = "\<lambda>r. - time_stamp r"
  let ?groups = "truncated_groups st final"
  have eq: "displayResults st final = sort_key ?key ?groups"
    using assms by (rule displayResults_sort)
  have "sorted (map ?key (sort_key ?key ?groups))"
    by (rule sorted_sort_key)
  then have sorted: "sorted_wrt (\<lambda>a b. time_stamp b \<le> time_stamp a) (sort_key ?key ?groups)"
    by (simp add: sorted_wrt_map)
  have stable: "filter (\<lambda>r. time_stamp r = t) (sort_key ?key ?groups) =
      filter (\<lambda>r. time_stamp r = t) ?groups" for t
    using sort_key_stable [of ?key "- t" ?groups] by simp
  have last: "time_stamp (sort_key ?key ?groups ! j) \<le> 0"
    if "i < j" and "j < length (sort_key ?key ?groups)"
      and "date (item (sort_key ?key ?groups ! i)) = None" for i j
  proof -
    from sorted that(1,2)
    have "time_stamp (sort_key ?key ?groups ! j) \<le> time_stamp (sort_key ?key ?groups ! i)"
      by (simp add: sorted_wrt_iff_nth_less)
    with that(3) show ?thesis by (simp add: time_stamp_def)
  qed
  show ?thesis
    unfolding eq using sorted stable last by (intro conjI allI impI) auto
qed

lemma six_results_groups:
  "truncated_groups two_reddit six_results =
     [reddit_result 100, reddit_result 200, hn_result 150, ddg_result]"
  by (simp add: truncated_groups_def from_source_def effective_limit_def two_reddit_def
      initial_state_def six_results_def reddit_result_def hn_result_def ddg_result_def linked_item_def)

lemma six_results_display:
  "displayResults two_reddit six_results =
     [reddit_result 200, hn_result 150, reddit_result 100, ddg_result]"
  by (simp add: displayResults_def limitedResults_def push_limited_def source_names_def slice0_def
      source_limit_def sourceKeyMap_def date_or_zero_def two_reddit_def initial_state_def
      six_results_def reddit_result_def hn_result_def ddg_result_def linked_item_def)

text \<open>
  The theorem at a concrete input: a global limit of 1 and the limit 2 for Reddit, three
  matched items of Reddit, two of Hacker News and one of DuckDuckGo.
\<close>

theorem display_truncates_then_sorts_witness:
  "truncated_groups two_reddit six_results =
     [reddit_result 100, reddit_result 200, hn_result 150, ddg_result] \<and>
   displayResults two_reddit six_results =
     [reddit_result 200, hn_result 150, reddit_result 100, ddg_result] \<and>
   [reddit_result 200, hn_result 150, reddit_result 100, ddg_result] =
     sort_key (\<lambda>r. - time_stamp r) [reddit_result 100, reddit_result 200, hn_result 150, ddg_result] \<and>
   mset [reddit_result 200, hn_result 150, reddit_result 100, ddg_result] =
     mset [reddit_result 100, reddit_result 200, hn_result 150, ddg_result] \<and>
   sorted_wrt (\<lambda>a b. time_stamp b \<le> time_stamp a)
     [reddit_result 200, hn_result 150, reddit_result 100, ddg_result]"
proof -
  have limits: "\<forall>k. 0 \<le> effective_limit two_reddit k"
    by (simp add: effective_limit_def two_reddit_def initial_state_def)
  from display_truncates_then_sorts [OF limits, of six_results]
  show ?thesis unfolding six_results_groups six_results_display by simp
qed

text \<open>
  Claim C3 as stated fails for a negative limit, which a settings file can set: with
  the limit -1 for Reddit, of three matched items of Reddit the first two are displayed,
  and no list of two items is a group cut to the limit.
\<close>

theorem negative_limit_counterexample:
  "loadState ''work.json'' fs_negative initial_state = (negative_state, [LoadedSettings ''work.json'']) \<and>
   effective_limit negative_state KReddit = - 1 \<and>
   displayResults negative_state [reddit_result 100, reddit_result 200, reddit_result 300] =
     [reddit_result 200, reddit_result 100] \<and>
   truncated_groups negative_state [reddit_result 100, reddit_result 200, reddit_result 300] = []"
proof -
  have 1: "loadState ''work.json'' fs_negative initial_state =
      (negative_state, [LoadedSettings ''work.json''])"
    by (simp add: loadState_def readFile_def fs_negative_def JSON_parse_def applyState_def
        negative_file_def negative_state_def initial_state_def or_empty_def or_ten_def
        restartFetchInterval_def Let_def fun_eq_iff new_Set_def set_add_def
        split: source_key.splits)
  have 2: "effective_limit negative_state KReddit = - 1"
    by (simp add: effective_limit_def negative_state_def)
  have 3: "displayResults negative_state [reddit_result 100, reddit_result 200, reddit_result 300] =
      [reddit_result 200, reddit_result 100]"
    by (simp add: displayResults_def limitedResults_def push_limited_def source_names_def slice0_def
        source_limit_def sourceKeyMap_def date_or_zero_def negative_state_def
        reddit_result_def linked_item_def)
  have 4: "truncated_groups negative_state [reddit_result 100, reddit_result 200, reddit_result 300] = []"
    by (simp add: truncated_groups_def from_source_def effective_limit_def negative_state_def
        reddit_result_def linked_item_def)
  from 1 2 3 4 show ?thesis by (intro conjI)
qed
section \<open>The pattern of a keyword\<close>

text \<open>
  The pattern \<open>findAndHighlightKeywords\<close> builds for a keyword always parses, and to
  the expression \<open>keywordRegex\<close>: every syntax character of the keyword is escaped.
\<close>
lemma backslash_syntax: "CHR 0x5C \<in> set syntax_chars"
  by (simp add: syntax_chars_def)

lemma b_not_syntax: "c \<in> set syntax_chars \<Longrightarrow> c \<noteq> CHR ''b''"
  by (auto simp: syntax_chars_def)

lemma parse_pattern_plain:
  assumes "c \<notin> set syntax_chars"
  shows "parse_pattern (c # rest) = map_option (\<lambda>r. Literal c # r) (parse_pattern rest)"
proof -
  from assms backslash_syntax have "c \<noteq> CHR 0x5C" by auto
  with assms show ?thesis by (cases rest) simp_all
qed

lemma parse_pattern_escaped:
  assumes "c \<in> set syntax_chars"
  shows "parse_pattern (CHR 0x5C # c # rest) = map_option (\<lambda>r. Literal c # r) (parse_pattern rest)"
  using assms b_not_syntax [OF assms] by simp

lemma parse_pattern_escape_syntax:
  "parse_pattern (escape_syntax kw @ rest) = map_option (\<lambda>r. map Literal kw @ r) (parse_pattern rest)"
proof (induction kw)
  case Nil
  show ?case by (cases "parse_pattern rest") (simp_all add: escape_syntax_def)
next
  case (Cons c kw)
  have unfold: "escape_syntax (c # kw) =
      (if c \<in> set syntax_chars then [CHR 0x5C, c] else [c]) @ escape_syntax kw"
    by (simp add: escape_syntax_def)
  show ?case
  proof (cases "c \<in> set syntax_chars")
    case True
    then show ?thesis
      using Cons.IH
      by (simp add: unfold parse_pattern_escaped option.map_comp comp_def del: parse_pattern.simps)
  next
    case False
    then show ?thesis
      using Cons.IH
      by (simp add: unfold parse_pattern_plain option.map_comp comp_def del: parse_pattern.simps)
  qed
qed

lemma parse_keywordPattern: "parse_pattern (keywordPattern kw) = Some (keywordRegex kw)"
proof -
  have "parse_pattern (keywordPattern kw) =
      map_option (\<lambda>r. WordBoundary # r) (parse_pattern (escape_syntax kw @ [CHR 0x5C, CHR ''b'']))"
    by (simp add: keywordPattern_def)
  also have "parse_pattern (escape_syntax kw @ [CHR 0x5C, CHR ''b'']) =
      map_option (\<lambda>r. map Literal kw @ r) (parse_pattern [CHR 0x5C, CHR ''b''])"
    by (rule parse_pattern_escape_syntax)
  also have "parse_pattern [CHR 0x5C, CHR ''b''] = Some [WordBoundary]"
    by simp
  finally show ?thesis by (simp add: keywordRegex_def)
qed

section \<open>Matching at a position\<close>

lemma match_here_literals:
  "match_here (map Literal kw @ r) prev s =
     (if length kw \<le> length s \<and> map canonicalize (take (length kw) s) = map canonicalize kw
      then map_option (\<lambda>n. length kw + n)
             (match_here r (if kw = [] then prev else Some (s ! (length kw - 1))) (drop (length kw) s))
      else None)"
proof (induction kw arbitrary: prev s)
  case Nil
  show ?case by (cases "match_here r prev s") simp_all
next
  case (Cons c kw)
  show ?case
  proof (cases s)
    case Nil
    then show ?thesis by simp
  next
    case (Cons d ds)
    show ?thesis
    proof (cases kw)
      case Nil
      then show ?thesis using Cons by (simp add: option.map_comp comp_def)
    next
      case (Cons c' kw')
      then have "kw \<noteq> []" by simp
      then show ?thesis
        using \<open>s = d # ds\<close> Cons.IH [of "Some d" ds]
        by (auto simp: option.map_comp comp_def nth_Cons split: nat.splits)
    qed
  qed
qed

lemma match_here_keywordRegex:
  "match_here (keywordRegex kw) prev s =
     (if word_before prev \<noteq> word_at s \<and> length kw \<le> length s \<and>
         map canonicalize (take (length kw) s) = map canonicalize kw \<and>
         word_before (if kw = [] then prev else Some (s ! (length kw - 1))) \<noteq> word_at (drop (length kw) s)
      then Some (length kw) else None)"
  by (simp add: keywordRegex_def match_here_literals)

lemma regex_test_iff:
  "regex_test r prev s \<longleftrightarrow>
     (\<exists>i \<le> length s. match_here r (if i = 0 then prev else Some (s ! (i - 1))) (drop i s) \<noteq> None)"
proof (induction s arbitrary: prev)
  case Nil
  then show ?case by simp
next
  case (Cons c cs)
  let ?P = "\<lambda>i. match_here r (if i = 0 then prev else Some ((c # cs) ! (i - 1))) (drop i (c # cs)) \<noteq> None"
  let ?Q = "\<lambda>j. match_here r (if j = 0 then Some c else Some (cs ! (j - 1))) (drop j cs) \<noteq> None"
  have shift: "?P (Suc j) = ?Q j" for j
    by (cases j) simp_all
  have "(\<exists>i \<le> length (c # cs). ?P i) \<longleftrightarrow> ?P 0 \<or> (\<exists>j \<le> length cs. ?P (Suc j))"
  proof
    assume "\<exists>i \<le> length (c # cs). ?P i"
    then obtain i where i: "i \<le> length (c # cs)" "?P i" by blast
    show "?P 0 \<or> (\<exists>j \<le> length cs. ?P (Suc j))"
    proof (cases i)
      case 0
      with i show ?thesis by simp
    next
      case (Suc j)
      with i have "j \<le> length cs" "?P (Suc j)" by simp_all
      then show ?thesis by blast
    qed
  next
    assume "?P 0 \<or> (\<exists>j \<le> length cs. ?P (Suc j))"
    then show "\<exists>i \<le> length (c # cs). ?P i"
    proof
      assume "?P 0"
      then show ?thesis by blast
    next
      assume "\<exists>j \<le> length cs. ?P (Suc j)"
      then obtain j where "j \<le> length cs" "?P (Suc j)" by blast
      then have "Suc j \<le> length (c # cs)" by simp
      with \<open>?P (Suc j)\<close> show ?thesis by blast
    qed
  qed
  also have "\<dots> \<longleftrightarrow> match_here r prev (c # cs) \<noteq> None \<or> (\<exists>j \<le> length cs. ?Q j)"
    using shift by simp
  also have "\<dots> \<longleftrightarrow> regex_test r prev (c # cs)"
    using Cons.IH [of "Some c"] by simp
  finally show ?case by simp
qed

lemma regex_test_matches_at:
  "regex_test (keywordRegex kw) None text \<longleftrightarrow> (\<exists>i. matches_at kw text i)"
  by (auto simp: regex_test_iff matches_at_def char_before_def)

section \<open>The matched keywords\<close>

lemma fst_foldl_highlight_step:
  "set (fst (foldl (highlight_step text) acc kws)) =
     set (fst acc) \<union> {kw \<in> set kws. regex_test (keywordRegex kw) None text}"
proof (induction kws arbitrary: acc)
  case Nil
  then show ?case by simp
next
  case (Cons kw kws)
  have step: "fst (highlight_step text acc kw) =
      (if regex_test (keywordRegex kw) None text then set_add (fst acc) kw else fst acc)"
    by (simp add: highlight_step_def)
  show ?case
    using Cons.IH [of "highlight_step text acc kw"]
    by (auto simp: step set_set_add)
qed

lemma set_matched_keywords:
  "set (fst (findAndHighlightKeywords text kws)) = {kw \<in> set kws. \<exists>i. matches_at kw text i}"
  by (simp add: findAndHighlightKeywords_def fst_foldl_highlight_step regex_test_matches_at)

section \<open>Whole words\<close>

lemma canonicalize_eq_nth:
  assumes "map canonicalize xs = map canonicalize ys" and "j < length ys"
  shows "canonicalize (xs ! j) = canonicalize (ys ! j)"
proof -
  from assms(1) have len: "length xs = length ys" by (rule map_eq_imp_length_eq)
  from assms(1) have "map canonicalize xs ! j = map canonicalize ys ! j" by simp
  with assms(2) len show ?thesis by simp
qed

lemma word_at_drop: "word_at (drop i text) \<longleftrightarrow> i < length text \<and> is_word_char (text ! i)"
proof (cases "i < length text")
  case True
  then have "drop i text = text ! i # drop (Suc i) text" by (simp add: Cons_nth_drop_Suc)
  then show ?thesis using True by (simp add: word_at_def)
next
  case False
  then show ?thesis by (simp add: word_at_def)
qed

lemma word_before_char_before:
  "word_before (char_before text i) \<longleftrightarrow> 0 < i \<and> is_word_char (text ! (i - 1))"
  by (simp add: word_before_def char_before_def)

text \<open>
  In a text of ASCII characters, the expression of a keyword that begins and ends with
  a word character matches exactly at the whole-word occurrences of the keyword.
\<close>

lemma matches_at_whole_word:
  assumes "ascii text" and "kw \<noteq> []" and "in_word (hd kw)" and "in_word (last kw)"
  shows "matches_at kw text i \<longleftrightarrow> whole_word_at kw text i"
proof (cases "i + length kw \<le> length text \<and>
    map canonicalize (take (length kw) (drop i text)) = map canonicalize kw")
  case False
  then have "\<not> matches_at kw text i"
    by (auto simp: matches_at_def match_here_keywordRegex)
  moreover from False have "\<not> whole_word_at kw text i"
    using same_letters_iff [OF ascii_take_drop [OF assms(1)], of "length kw" i kw]
    by (auto simp: whole_word_at_def)
  ultimately show ?thesis by simp
next
  case True
  then have fits: "i + length kw \<le> length text"
    and eq: "map canonicalize (take (length kw) (drop i text)) = map canonicalize kw" by simp_all
  from assms(2) have pos: "0 < length kw" by simp
  have first: "canonicalize (text ! i) = canonicalize (hd kw)"
    using canonicalize_eq_nth [OF eq, of 0] pos fits by (simp add: hd_conv_nth assms(2))
  have last: "canonicalize (text ! (i + length kw - 1)) = canonicalize (last kw)"
    using canonicalize_eq_nth [OF eq, of "length kw - 1"] pos fits
    by (simp add: last_conv_nth assms(2))
  have w1: "is_word_char (text ! i)"
    using canonicalize_eq_word_char [OF first] assms(3) by (simp add: in_word_iff)
  have w2: "is_word_char (text ! (i + length kw - 1))"
    using canonicalize_eq_word_char [OF last] assms(4) by (simp add: in_word_iff)
  from pos fits have lt: "i < length text" by linarith
  have at_i: "word_at (drop i text)"
    using w1 lt by (simp add: word_at_drop)
  from pos have idx: "i + (length kw - 1) = i + length kw - 1" by linarith
  have "drop i text ! (length kw - 1) = text ! (i + (length kw - 1))"
    using pos fits by (intro nth_drop) linarith
  then have nth: "drop i text ! (length kw - 1) = text ! (i + length kw - 1)"
    by (simp only: idx)
  have before_end: "word_before (Some (drop i text ! (length kw - 1)))"
    using w2 nth by (simp add: word_before_def)
  have "match_here (keywordRegex kw) (char_before text i) (drop i text) \<noteq> None \<longleftrightarrow>
      \<not> word_before (char_before text i) \<and> \<not> word_at (drop (length kw) (drop i text))"
    unfolding match_here_keywordRegex
    using fits eq at_i before_end assms(2) by auto
  then have "matches_at kw text i \<longleftrightarrow>
      \<not> word_before (char_before text i) \<and> \<not> word_at (drop (i + length kw) text)"
    using lt by (simp add: matches_at_def add.commute)
  also have "\<dots> \<longleftrightarrow> (i = 0 \<or> \<not> in_word (text ! (i - 1))) \<and>
      (i + length kw = length text \<or> \<not> in_word (text ! (i + length kw)))"
    using fits by (auto simp: word_before_char_before word_at_drop in_word_iff)
  also have "\<dots> \<longleftrightarrow> whole_word_at kw text i"
    using fits eq same_letters_iff [OF ascii_take_drop [OF assms(1)], of "length kw" i kw]
    by (simp add: whole_word_at_def)
  finally show ?thesis .
qed

section \<open>The keywords recorded for an item\<close>

lemma set_allKeywords: "set (allKeywords st) = (\<Union>k. set (statekeywords st k))"
proof -
  have "(\<Union>k. set (statekeywords st k)) =
      set (statekeywords st KReddit) \<union> set (statekeywords st KHn) \<union> set (statekeywords st KDdg)"
  proof
    show "(\<Union>k. set (statekeywords st k)) \<subseteq>
        set (statekeywords st KReddit) \<union> set (statekeywords st KHn) \<union> set (statekeywords st KDdg)"
    proof
      fix x assume "x \<in> (\<Union>k. set (statekeywords st k))"
      then obtain k where "x \<in> set (statekeywords st k)" by blast
      then show "x \<in> set (statekeywords st KReddit) \<union> set (statekeywords st KHn) \<union> set (statekeywords st KDdg)"
        by (cases k) simp_all
    qed
  qed blast
  then show ?thesis by (simp add: allKeywords_def set_new_Set Un_assoc)
qed

lemma match_item_recorded:
  assumes "match_item kws a = Inr rs"
  shows "(\<exists>r \<in> set rs. item r = it \<and> kw \<in> set (matchedKeywords r)) \<longleftrightarrow>
     a = it \<and> kw \<in> set (fst (findAndHighlightKeywords (scanned_text it) kws))"
  using assms by (auto simp: match_item_def Let_def split: if_splits option.splits)

lemma finalResults_recorded:
  assumes "finalResults kws items = Inr final"
  shows "(\<exists>r \<in> set final. item r = it \<and> kw \<in> set (matchedKeywords r)) \<longleftrightarrow>
     it \<in> set items \<and> kw \<in> set (fst (findAndHighlightKeywords (scanned_text it) kws))"
  using assms
proof (induction items arbitrary: final)
  case Nil
  then show ?case by simp
next
  case (Cons a items)
  from Cons.prems obtain rs rest where rs: "match_item kws a = Inr rs"
    and rest: "finalResults kws items = Inr rest" and final: "final = rs @ rest"
    by (auto split: sum.splits)
  have "(\<exists>r \<in> set final. item r = it \<and> kw \<in> set (matchedKeywords r)) \<longleftrightarrow>
      (\<exists>r \<in> set rs. item r = it \<and> kw \<in> set (matchedKeywords r)) \<or>
      (\<exists>r \<in> set rest. item r = it \<and> kw \<in> set (matchedKeywords r))"
    unfolding final by auto
  also have "\<dots> \<longleftrightarrow>
      (a = it \<and> kw \<in> set (fst (findAndHighlightKeywords (scanned_text it) kws))) \<or>
      (it \<in> set items \<and> kw \<in> set (fst (findAndHighlightKeywords (scanned_text it) kws)))"
    unfolding match_item_recorded [OF rs] Cons.IH [OF rest] ..
  finally show ?case by auto
qed

text \<open>
  Claim C2, amended. In a fetch cycle whose matching loop runs to its end, for every
  deduplicated item that has a title, with title and snippet of ASCII characters, and
  for every keyword of any source that is not empty and begins and ends with a word
  character (a letter, a digit or an underscore): the keyword is recorded as matched for
  the item exactly when it has a whole-word occurrence, letter case aside, in the title,
  a space and the snippet.
\<close>

theorem keyword_recorded_iff_whole_word:
  assumes "finalResults (allKeywords st) (unique_values allResultsRaw) = Inr final"
    and "it \<in> set (unique_values allResultsRaw)"
    and "title it = Some t"
    and "ascii (t @ '' '' @ snippet it)"
    and "kw \<in> set (statekeywords st k)"
    and "kw \<noteq> []" and "in_word (hd kw)" and "in_word (last kw)"
  shows "(\<exists>r \<in> set final. item r = it \<and> kw \<in> set (matchedKeywords r)) \<longleftrightarrow>
           whole_word_occurrence kw (t @ '' '' @ snippet it)"
proof -
  from assms(5) have mem: "kw \<in> set (allKeywords st)"
    unfolding set_allKeywords by blast
  from assms(3) have scanned: "scanned_text it = t @ '' '' @ snippet it"
    by (simp add: scanned_text_def title_text_def)
  have "(\<exists>r \<in> set final. item r = it \<and> kw \<in> set (matchedKeywords r)) \<longleftrightarrow>
      (\<exists>i. matches_at kw (scanned_text it) i)"
    using assms(2) mem by (simp add: finalResults_recorded [OF assms(1)] set_matched_keywords)
  also have "\<dots> \<longleftrightarrow> (\<exists>i. whole_word_at kw (t @ '' '' @ snippet it) i)"
    unfolding scanned using matches_at_whole_word [OF assms(4,6,7,8)] by simp
  also have "\<dots> \<longleftrightarrow> whole_word_occurrence kw (t @ '' '' @ snippet it)"
    by (auto simp: whole_word_occurrence_def whole_word_at_def)
  finally show ?thesis .
qed

lemma pi_in_title: "whole_word_at ''pi'' ''Raspberry Pi 5 is great a review'' 10"
  by (simp add: whole_word_at_def same_letters_def same_letter_def letter_pairs_def in_word_def
      word_characters_def)

lemma go_pi_matching:
  "finalResults (allKeywords go_pi_state) (unique_values [linked_item, piano_item]) =
     Inr [\<lparr> item = linked_item, matchedKeywords = [''pi''],
            highlightedSnippet = ''} 5 is great a review'' \<rparr>]"
  by (simp add: allKeywords_def new_Set_def go_pi_state_def initial_state_def unique_values_def
      uniqueResults_def dedup_step_def eval_match linked_item_def piano_item_def eval_chars)

text \<open>
  The theorem at concrete inputs, with the keywords \<open>go\<close> for Reddit and \<open>pi\<close> for
  Hacker News: \<open>Raspberry Pi 5 is great\<close> matches the keyword \<open>pi\<close>, \<open>piano\<close>
  does not.
\<close>

theorem keyword_recorded_iff_whole_word_witness:
  "finalResults (allKeywords go_pi_state) (unique_values [linked_item, piano_item]) =
     Inr [\<lparr> item = linked_item, matchedKeywords = [''pi''],
            highlightedSnippet = ''} 5 is great a review'' \<rparr>] \<and>
   whole_word_occurrence ''pi'' ''Raspberry Pi 5 is great a review'' \<and>
   \<not> whole_word_occurrence ''pi'' ''piano lessons''"
proof -
  let ?final = "[\<lparr> item = linked_item, matchedKeywords = [''pi''],
     highlightedSnippet = ''} 5 is great a review'' \<rparr>]"
  have items: "linked_item \<in> set (unique_values [linked_item, piano_item])"
    "piano_item \<in> set (unique_values [linked_item, piano_item])"
    by (simp_all add: unique_values_def uniqueResults_def dedup_step_def linked_item_def piano_item_def)
  have t1: "title linked_item = Some ''Raspberry Pi 5 is great''"
    and t2: "title piano_item = Some ''piano''"
    by (simp_all add: linked_item_def piano_item_def)
  have a1: "ascii (''Raspberry Pi 5 is great'' @ '' '' @ snippet linked_item)"
    and a2: "ascii (''piano'' @ '' '' @ snippet piano_item)"
    by (simp_all add: ascii_def linked_item_def piano_item_def code_def)
  have kw: "''pi'' \<in> set (statekeywords go_pi_state KHn)"
    by (simp add: go_pi_state_def)
  have wordy: "''pi'' \<noteq> []" "in_word (hd ''pi'')" "in_word (last ''pi'')"
    by (simp_all add: in_word_def word_characters_def)
  have s1: "''Raspberry Pi 5 is great'' @ '' '' @ snippet linked_item = ''Raspberry Pi 5 is great a review''"
    and s2: "''piano'' @ '' '' @ snippet piano_item = ''piano lessons''"
    by (simp_all add: linked_item_def piano_item_def)
  have differ: "linked_item \<noteq> piano_item"
    by (simp add: linked_item_def piano_item_def)
  have yes: "\<exists>r \<in> set ?final. item r = linked_item \<and> ''pi'' \<in> set (matchedKeywords r)"
    by simp
  have no: "\<not> (\<exists>r \<in> set ?final. item r = piano_item \<and> ''pi'' \<in> set (matchedKeywords r))"
    using differ by simp
  from keyword_recorded_iff_whole_word [OF go_pi_matching items(1) t1 a1 kw wordy] yes
  have 1: "whole_word_occurrence ''pi'' ''Raspberry Pi 5 is great a review''"
    unfolding s1 by blast
  from keyword_recorded_iff_whole_word [OF go_pi_matching items(2) t2 a2 kw wordy] no
  have 2: "\<not> whole_word_occurrence ''pi'' ''piano lessons''"
    unfolding s2 by blast
  from go_pi_matching 1 2 show ?thesis by (intro conjI)
qed

text \<open>
  Claim C2 as stated fails for a keyword that ends with punctuation: \<open>c++\<close> stands as
  a whole word in \<open>c++ rocks\<close>, and it is not recorded, because the \<open>\b\<close> after
  the last \<open>+\<close> asks for a word character next.
\<close>

theorem punctuation_keyword_counterexample:
  "title cpp_item = Some ''c++'' \<and>
   whole_word_occurrence ''c++'' (''c++'' @ '' '' @ snippet cpp_item) \<and>
   ''c++'' \<in> set (allKeywords cpp_state) \<and>
   cpp_item \<in> set (unique_values [cpp_item]) \<and>
   finalResults (allKeywords cpp_state) (unique_values [cpp_item]) = Inr []"
proof -
  have "whole_word_at ''c++'' ''c++ rocks'' 0"
    by (simp add: whole_word_at_def same_letters_def same_letter_def in_word_def word_characters_def)
  then have 1: "whole_word_occurrence ''c++'' (''c++'' @ '' '' @ snippet cpp_item)"
    by (auto simp: whole_word_occurrence_def cpp_item_def linked_item_def)
  have 2: "finalResults (allKeywords cpp_state) (unique_values [cpp_item]) = Inr []"
    by (simp add: allKeywords_def new_Set_def cpp_state_def initial_state_def unique_values_def
        uniqueResults_def dedup_step_def eval_match cpp_item_def linked_item_def eval_chars)
  have 3: "''c++'' \<in> set (allKeywords cpp_state)"
    by (simp add: allKeywords_def new_Set_def cpp_state_def initial_state_def set_add_def)
  have 4: "cpp_item \<in> set (unique_values [cpp_item])"
    by (simp add: unique_values_def uniqueResults_def dedup_step_def cpp_item_def linked_item_def)
  have 5: "title cpp_item = Some ''c++''"
    by (simp add: cpp_item_def linked_item_def)
  from 1 2 3 4 5 show ?thesis by simp
qed

text \<open>
  Outside ASCII the word boundary of the expression is not that of the words of a
  language: \<open>pi\<close> is recorded for a title that begins with \<open>pi\<close> and goes on with
  an n with tilde, which is no word character of the expression.
\<close>

lemma accented_neighbour_recorded:
  "match_item [''pi''] pinata_item =
     Inr [\<lparr> item = pinata_item, matchedKeywords = [''pi''], highlightedSnippet = ''i{/bold}'' @ [CHR 0xF1] @ ''ata party'' \<rparr>]"
  by (simp add: eval_match pinata_item_def linked_item_def eval_chars)
section \<open>Highlighting\<close>

lemma starts_within_iff:
  "starts_within r prev s k \<longleftrightarrow>
     (\<exists>i \<le> k. match_here r (if i = 0 then prev else Some (s ! (i - 1))) (drop i s) \<noteq> None)"
  unfolding starts_within_def Bex_def atMost_iff ..

lemma length_bold: "length (bold m) = length m + 13"
  by (simp add: bold_def)

lemma subseq_bold: "subseq m (bold m)"
  unfolding bold_def by (intro list_emb_append2 list_emb_prefix) simp

lemma replace_bold_skip:
  assumes "match_here r prev (c # cs) = None \<or> match_here r prev (c # cs) = Some 0"
  shows "replace_bold r prev (c # cs) =
     (if match_here r prev (c # cs) = None then [] else bold []) @ c # replace_bold r (Some c) cs"
  using assms by (subst replace_bold.simps) auto

lemma replace_bold_match:
  assumes "match_here r prev s = Some n" and "0 < n"
  shows "replace_bold r prev s = bold (take n s) @ replace_bold r (Some (s ! (n - 1))) (drop n s)"
  using assms by (subst replace_bold.simps) simp

lemma subseq_replace_bold: "subseq s (replace_bold r prev s)"
proof (induction "length s" arbitrary: s prev rule: less_induct)
  case less
  show ?case
  proof (cases "match_here r prev s = None \<or> match_here r prev s = Some 0")
    case True
    show ?thesis
    proof (cases s)
      case Nil
      then show ?thesis by simp
    next
      case (Cons c cs)
      have "subseq cs (replace_bold r (Some c) cs)"
        using less [of cs "Some c"] Cons by simp
      then have "subseq (c # cs) (c # replace_bold r (Some c) cs)" by simp
      then have "subseq (c # cs)
          ((if match_here r prev (c # cs) = None then [] else bold []) @ c # replace_bold r (Some c) cs)"
        by (rule list_emb_append2)
      then show ?thesis using True Cons by (simp only: replace_bold_skip)
    qed
  next
    case False
    then obtain n where n: "match_here r prev s = Some n" "0 < n" by auto
    from n(1) have le: "n \<le> length s" by (rule match_here_le)
    with n(2) have "length (drop n s) < length s" by simp
    then have "subseq (drop n s) (replace_bold r (Some (s ! (n - 1))) (drop n s))"
      by (rule less)
    with subseq_bold [of "take n s"]
    have "subseq (take n s @ drop n s)
        (bold (take n s) @ replace_bold r (Some (s ! (n - 1))) (drop n s))"
      by (rule list_emb_append_mono)
    then show ?thesis using n by (simp add: replace_bold_match)
  qed
qed

lemma starts_within_0: "starts_within r prev s 0 \<longleftrightarrow> match_here r prev s \<noteq> None"
  by (simp add: starts_within_iff)

lemma starts_within_here: "match_here r prev s \<noteq> None \<Longrightarrow> starts_within r prev s k"
  unfolding starts_within_iff by (rule exI [of _ 0]) simp

lemma starts_within_Suc:
  "starts_within r prev (c # cs) (Suc k) \<longleftrightarrow>
     match_here r prev (c # cs) \<noteq> None \<or> starts_within r (Some c) cs k"
proof -
  let ?P = "\<lambda>i. match_here r (if i = 0 then prev else Some ((c # cs) ! (i - 1))) (drop i (c # cs)) \<noteq> None"
  let ?Q = "\<lambda>j. match_here r (if j = 0 then Some c else Some (cs ! (j - 1))) (drop j cs) \<noteq> None"
  have shift: "?P (Suc j) = ?Q j" for j
    by (cases j) simp_all
  have "(\<exists>i \<le> Suc k. ?P i) \<longleftrightarrow> ?P 0 \<or> (\<exists>j \<le> k. ?P (Suc j))"
  proof
    assume "\<exists>i \<le> Suc k. ?P i"
    then obtain i where i: "i \<le> Suc k" "?P i" by blast
    show "?P 0 \<or> (\<exists>j \<le> k. ?P (Suc j))"
    proof (cases i)
      case 0
      with i show ?thesis by simp
    next
      case (Suc j)
      with i have "j \<le> k" "?P (Suc j)" by simp_all
      then show ?thesis by blast
    qed
  next
    assume "?P 0 \<or> (\<exists>j \<le> k. ?P (Suc j))"
    then show "\<exists>i \<le> Suc k. ?P i"
    proof
      assume "?P 0"
      then show ?thesis by blast
    next
      assume "\<exists>j \<le> k. ?P (Suc j)"
      then obtain j where "j \<le> k" "?P (Suc j)" by blast
      then have "Suc j \<le> Suc k" by simp
      with \<open>?P (Suc j)\<close> show ?thesis by blast
    qed
  qed
  then show ?thesis
    unfolding starts_within_iff using shift by simp
qed

lemma pass_split:
  "\<exists>u' v'. replace_bold r prev (u @ CHR '' '' # v) = u' @ CHR '' '' # v' \<and>
     subseq u u' \<and> subseq v v' \<and>
     (if starts_within r prev (u @ CHR '' '' # v) (length u) then length u + 6 \<le> length u' else u' = u)"
proof (induction "length u" arbitrary: u prev rule: less_induct)
  case less
  let ?s = "u @ CHR '' '' # v"
  show ?case
  proof (cases "match_here r prev ?s = None \<or> match_here r prev ?s = Some 0")
    case skip: True
    let ?pre = "if match_here r prev ?s = None then [] else bold []"
    have pre_len: "match_here r prev ?s \<noteq> None \<Longrightarrow> length ?pre = 13"
      by (simp add: length_bold)
    show ?thesis
    proof (cases u)
      case Nil
      let ?v' = "replace_bold r (Some CHR '' '') v"
      have eq: "replace_bold r prev ?s = ?pre @ CHR '' '' # ?v'"
        using skip Nil by (simp add: replace_bold_skip)
      have cond: "starts_within r prev ?s (length u) \<longleftrightarrow> match_here r prev ?s \<noteq> None"
        using Nil by (simp add: starts_within_0)
      have "subseq u ?pre" using Nil by simp
      moreover have "subseq v ?v'" by (rule subseq_replace_bold)
      moreover have "if starts_within r prev ?s (length u) then length u + 6 \<le> length ?pre else ?pre = u"
        using Nil cond by (simp add: length_bold)
      ultimately show ?thesis using eq by blast
    next
      case (Cons c u0)
      from Cons have "length u0 < length u" by simp
      from less [OF this, of "Some c"] obtain u0' v' where
        rest: "replace_bold r (Some c) (u0 @ CHR '' '' # v) = u0' @ CHR '' '' # v'"
        and sub_u: "subseq u0 u0'" and sub_v: "subseq v v'"
        and grow: "if starts_within r (Some c) (u0 @ CHR '' '' # v) (length u0)
                   then length u0 + 6 \<le> length u0' else u0' = u0"
        by blast
      let ?u' = "?pre @ c # u0'"
      have eq: "replace_bold r prev ?s = ?u' @ CHR '' '' # v'"
        using skip Cons rest by (simp add: replace_bold_skip)
      from sub_u have "subseq (c # u0) (c # u0')" by simp
      then have sub: "subseq u ?u'" unfolding Cons by (rule list_emb_append2)
      from sub_u have len0: "length u0 \<le> length u0'" by (rule list_emb_length)
      have cond: "starts_within r prev ?s (length u) \<longleftrightarrow>
          match_here r prev ?s \<noteq> None \<or> starts_within r (Some c) (u0 @ CHR '' '' # v) (length u0)"
        using Cons by (simp add: starts_within_Suc)
      have "if starts_within r prev ?s (length u) then length u + 6 \<le> length ?u' else ?u' = u"
      proof (cases "match_here r prev ?s \<noteq> None")
        case True
        then have "length ?u' = 13 + (1 + length u0')" by (simp add: length_bold)
        with len0 True cond Cons show ?thesis by simp
      next
        case False
        then have "?pre = []" by simp
        with False cond grow Cons show ?thesis by (auto split: if_splits)
      qed
      with eq sub sub_v show ?thesis by blast
    qed
  next
    case False
    then obtain n where n: "match_here r prev ?s = Some n" "0 < n" by auto
    from n(1) have le: "n \<le> length ?s" by (rule match_here_le)
    have cond: "starts_within r prev ?s (length u)"
      using n(1) by (intro starts_within_here) simp
    have eq0: "replace_bold r prev ?s = bold (take n ?s) @ replace_bold r (Some (?s ! (n - 1))) (drop n ?s)"
      using n by (rule replace_bold_match)
    show ?thesis
    proof (cases "n \<le> length u")
      case True
      then have tk: "take n ?s = take n u" and dr: "drop n ?s = drop n u @ CHR '' '' # v" by simp_all
      from True n(2) have "length (drop n u) < length u" by simp
      from less [OF this, of "Some (?s ! (n - 1))"] obtain u0' v' where
        rest: "replace_bold r (Some (?s ! (n - 1))) (drop n u @ CHR '' '' # v) = u0' @ CHR '' '' # v'"
        and sub_u: "subseq (drop n u) u0'" and sub_v: "subseq v v'"
        by blast
      let ?u' = "bold (take n u) @ u0'"
      have eq: "replace_bold r prev ?s = ?u' @ CHR '' '' # v'"
        using eq0 unfolding tk dr rest by simp
      from subseq_bold [of "take n u"] sub_u
      have "subseq (take n u @ drop n u) ?u'" by (rule list_emb_append_mono)
      then have sub: "subseq u ?u'" by simp
      from sub_u have "length (drop n u) \<le> length u0'" by (rule list_emb_length)
      with True have "length u + 6 \<le> length ?u'" by (simp add: length_bold)
      with cond have "if starts_within r prev ?s (length u) then length u + 6 \<le> length ?u' else ?u' = u"
        by simp
      with eq sub sub_v show ?thesis by blast
    next
      case False
      then have gt: "length u < n" by simp
      let ?k = "n - length u - 1"
      from gt have tk: "take n ?s = u @ CHR '' '' # take ?k v"
        by (cases "n - length u") simp_all
      from gt have dr: "drop n ?s = drop ?k v"
        by (cases "n - length u") simp_all
      let ?u' = "''{bold}'' @ u"
      let ?v' = "take ?k v @ ''{/bold}'' @ replace_bold r (Some (?s ! (n - 1))) (drop ?k v)"
      have eq: "replace_bold r prev ?s = ?u' @ CHR '' '' # ?v'"
        using eq0 unfolding tk dr by (simp add: bold_def)
      have sub: "subseq u ?u'" by (rule list_emb_append2) simp
      have "subseq (drop ?k v) (''{/bold}'' @ replace_bold r (Some (?s ! (n - 1))) (drop ?k v))"
        by (rule list_emb_append2) (rule subseq_replace_bold)
      then have "subseq (take ?k v @ drop ?k v) ?v'"
        by (intro list_emb_append_mono) simp_all
      then have sub_v: "subseq v ?v'" by simp
      have "length u + 6 \<le> length ?u'" by simp
      with cond have "if starts_within r prev ?s (length u) then length u + 6 \<le> length ?u' else ?u' = u"
        by simp
      with eq sub sub_v show ?thesis by blast
    qed
  qed
qed

section \<open>The snippet field\<close>

lemma word_at_before_space: "word_at (x @ CHR '' '' # v) = word_at (x @ CHR '' '' # v')"
  by (cases x) (simp_all add: word_at_def)

lemma match_here_inside:
  assumes "length kw \<le> length x"
  shows "match_here (keywordRegex kw) p (x @ CHR '' '' # v) =
         match_here (keywordRegex kw) p (x @ CHR '' '' # v')"
proof -
  have nth: "kw \<noteq> [] \<Longrightarrow> (x @ CHR '' '' # w) ! (length kw - 1) = x ! (length kw - 1)" for w
    using assms by (cases kw) (simp_all add: nth_append)
  have dr: "drop (length kw) (x @ CHR '' '' # w) = drop (length kw) x @ CHR '' '' # w" for w
    using assms by simp
  have tk: "take (length kw) (x @ CHR '' '' # w) = take (length kw) x" for w
    using assms by simp
  show ?thesis
    unfolding match_here_keywordRegex dr tk
    using assms word_at_before_space [of x v v'] word_at_before_space [of "drop (length kw) x" v v']
      nth [of v] nth [of v']
    by (cases "kw = []") simp_all
qed

lemma matches_at_inside:
  assumes "i + length kw \<le> length u"
  shows "matches_at kw (u @ CHR '' '' # v) i \<longleftrightarrow> matches_at kw (u @ CHR '' '' # v') i"
proof -
  from assms have i: "i \<le> length u" by simp
  have cb: "char_before (u @ CHR '' '' # w) i = char_before u i" for w
    using i by (cases i) (simp_all add: char_before_def nth_append)
  have dr: "drop i (u @ CHR '' '' # w) = drop i u @ CHR '' '' # w" for w
    using i by simp
  from assms have "length kw \<le> length (drop i u)" by simp
  then have "match_here (keywordRegex kw) (char_before u i) (drop i u @ CHR '' '' # v) =
      match_here (keywordRegex kw) (char_before u i) (drop i u @ CHR '' '' # v')"
    by (rule match_here_inside)
  then show ?thesis
    using i by (simp add: matches_at_def cb dr)
qed

lemma matches_at_starts_within:
  assumes "matches_at kw s i" and "i \<le> k"
  shows "starts_within (keywordRegex kw) None s k"
  using assms unfolding matches_at_def starts_within_iff char_before_def by blast

lemma snd_highlight_step:
  "snd (highlight_step text acc kw) =
     (if regex_test (keywordRegex kw) None text then replace_bold (keywordRegex kw) None (snd acc)
      else snd acc)"
  by (simp add: highlight_step_def)

lemma fold_split:
  assumes "snd acc = HT @ CHR '' '' # HS"
  shows "\<exists>HT' HS'. snd (foldl (highlight_step text) acc kws) = HT' @ CHR '' '' # HS' \<and>
           subseq HT HT' \<and> subseq HS HS'"
  using assms
proof (induction kws arbitrary: acc HT HS)
  case Nil
  then show ?case by auto
next
  case (Cons k kws)
  obtain u' v' where step: "snd (highlight_step text acc k) = u' @ CHR '' '' # v'"
    and su: "subseq HT u'" and sv: "subseq HS v'"
  proof (cases "regex_test (keywordRegex k) None text")
    case True
    from pass_split [of "keywordRegex k" None HT HS] obtain u' v' where
      "replace_bold (keywordRegex k) None (HT @ CHR '' '' # HS) = u' @ CHR '' '' # v'"
      "subseq HT u'" "subseq HS v'" by blast
    with True Cons.prems that show ?thesis by (simp add: snd_highlight_step)
  next
    case False
    with Cons.prems that [of HT HS] show ?thesis by (simp add: snd_highlight_step)
  qed
  from Cons.IH [OF step] obtain HT' HS' where
    "snd (foldl (highlight_step text) (highlight_step text acc k) kws) = HT' @ CHR '' '' # HS'"
    "subseq u' HT'" "subseq v' HS'" by blast
  with su sv show ?case
    by (auto intro: subseq_order.order_trans)
qed

lemma fold_grows:
  assumes "snd acc = t @ CHR '' '' # HS" and "kw \<in> set kws"
    and "matches_at kw (t @ CHR '' '' # sn) i" and "i + length kw \<le> length t"
  shows "\<exists>HT' HS'. snd (foldl (highlight_step (t @ CHR '' '' # sn)) acc kws) = HT' @ CHR '' '' # HS' \<and>
           subseq t HT' \<and> subseq HS HS' \<and> length t + 6 \<le> length HT'"
  using assms(1,2)
proof (induction kws arbitrary: acc HS)
  case Nil
  then show ?case by simp
next
  case (Cons k kws)
  let ?text = "t @ CHR '' '' # sn"
  let ?acc' = "highlight_step ?text acc k"
  from assms(3) have tested: "regex_test (keywordRegex kw) None ?text"
    by (auto simp: regex_test_matches_at)
  from assms(4) have i: "i \<le> length t" by simp
  have here: "starts_within (keywordRegex kw) None (t @ CHR '' '' # HS) (length t)"
    using matches_at_inside [OF assms(4), of sn HS] assms(3) i
    by (auto intro: matches_at_starts_within)
  obtain u' v' where step: "snd ?acc' = u' @ CHR '' '' # v'"
    and su: "subseq t u'" and sv: "subseq HS v'"
    and grow: "length t + 6 \<le> length u' \<or> (u' = t \<and> k \<noteq> kw)"
  proof (cases "regex_test (keywordRegex k) None ?text")
    case True
    from pass_split [of "keywordRegex k" None t HS] obtain u' v' where
      p: "replace_bold (keywordRegex k) None (t @ CHR '' '' # HS) = u' @ CHR '' '' # v'"
      "subseq t u'" "subseq HS v'"
      "if starts_within (keywordRegex k) None (t @ CHR '' '' # HS) (length t)
       then length t + 6 \<le> length u' else u' = t" by blast
    from p(4) here have "length t + 6 \<le> length u' \<or> (u' = t \<and> k \<noteq> kw)"
      by (auto split: if_splits)
    with True Cons.prems(1) p(1,2,3) that show ?thesis by (simp add: snd_highlight_step)
  next
    case False
    with tested have "k \<noteq> kw" by auto
    with False Cons.prems(1) that [of t HS] show ?thesis by (simp add: snd_highlight_step)
  qed
  from grow show ?case
  proof
    assume big: "length t + 6 \<le> length u'"
    from fold_split [OF step, of ?text kws] obtain HT' HS' where
      f: "snd (foldl (highlight_step ?text) ?acc' kws) = HT' @ CHR '' '' # HS'"
      "subseq u' HT'" "subseq v' HS'" by blast
    from f(2) have "length u' \<le> length HT'" by (rule list_emb_length)
    with big have "length t + 6 \<le> length HT'" by simp
    moreover from su f(2) have "subseq t HT'" by (rule subseq_order.order_trans)
    moreover from sv f(3) have "subseq HS HS'" by (rule subseq_order.order_trans)
    ultimately show ?thesis using f(1) by auto
  next
    assume same: "u' = t \<and> k \<noteq> kw"
    with Cons.prems(2) have mem: "kw \<in> set kws" by auto
    from step same have step': "snd ?acc' = t @ CHR '' '' # v'" by simp
    from Cons.IH [OF step' mem] obtain HT' HS' where
      f: "snd (foldl (highlight_step ?text) ?acc' kws) = HT' @ CHR '' '' # HS'"
      "subseq t HT'" "subseq v' HS'" "length t + 6 \<le> length HT'" by blast
    from sv f(3) have "subseq HS HS'" by (rule subseq_order.order_trans)
    with f show ?thesis by auto
  qed
qed

lemma match_item_snippet:
  assumes "match_item kws it = Inr rs" and "r \<in> set rs"
  shows "\<exists>t. title it = Some t \<and> highlightedSnippet r =
     drop (length t + 1) (snd (findAndHighlightKeywords (t @ '' '' @ snippet it) kws))"
  using assms
  by (auto simp: match_item_def scanned_text_def title_text_def Let_def split: if_splits option.splits)

text \<open>
  Claim C10. A matched item has a title, and its field \<open>highlightedSnippet\<close> is the
  highlighted form of the title, a space and the snippet, without its first
  \<open>title.length + 1\<close> characters. Whenever a keyword of the list matches inside the
  title, the highlighted text is a highlighted title part \<open>HT\<close>, a space and a
  highlighted snippet part \<open>HS\<close> (the title is a subsequence of \<open>HT\<close>, the snippet
  of \<open>HS\<close>), where \<open>HT\<close> is at least six characters longer than the title: the field
  is what is left of \<open>HT\<close> after the cut, which is not empty, then the space and
  \<open>HS\<close>.
\<close>

theorem highlighted_snippet_offset:
  assumes "match_item kws it = Inr rs" and "r \<in> set rs"
  shows "\<exists>t. title it = Some t \<and>
         highlightedSnippet r =
           drop (length t + 1) (snd (findAndHighlightKeywords (t @ '' '' @ snippet it) kws)) \<and>
         (\<forall>kw \<in> set kws. \<forall>i.
            matches_at kw (t @ '' '' @ snippet it) i \<and> i + length kw \<le> length t \<longrightarrow>
            (\<exists>HT HS. snd (findAndHighlightKeywords (t @ '' '' @ snippet it) kws) = HT @ '' '' @ HS \<and>
               subseq t HT \<and> subseq (snippet it) HS \<and>
               length t + 6 \<le> length HT \<and>
               highlightedSnippet r = drop (length t + 1) HT @ '' '' @ HS \<and>
               drop (length t + 1) HT \<noteq> []))"
proof -
  from match_item_snippet [OF assms] obtain t where t: "title it = Some t"
    and eq: "highlightedSnippet r =
      drop (length t + 1) (snd (findAndHighlightKeywords (t @ '' '' @ snippet it) kws))"
    by blast
  have "\<exists>HT HS. snd (findAndHighlightKeywords (t @ '' '' @ snippet it) kws) = HT @ '' '' @ HS \<and>
      subseq t HT \<and> subseq (snippet it) HS \<and> length t + 6 \<le> length HT \<and>
      highlightedSnippet r = drop (length t + 1) HT @ '' '' @ HS \<and>
      drop (length t + 1) HT \<noteq> []"
    if kw: "kw \<in> set kws"
      and m: "matches_at kw (t @ '' '' @ snippet it) i \<and> i + length kw \<le> length t" for kw i
  proof -
    let ?text = "t @ CHR '' '' # snippet it"
    have "snd ([] :: string list, ?text) = t @ CHR '' '' # snippet it" by simp
    from fold_grows [OF this kw, of "snippet it" i] m obtain HT HS where
      f: "snd (foldl (highlight_step ?text) ([], ?text) kws) = HT @ CHR '' '' # HS"
      "subseq t HT" "subseq (snippet it) HS" "length t + 6 \<le> length HT"
      by auto
    from f(1) have H: "snd (findAndHighlightKeywords (t @ '' '' @ snippet it) kws) = HT @ '' '' @ HS"
      by (simp add: findAndHighlightKeywords_def)
    from f(4) have "highlightedSnippet r = drop (length t + 1) HT @ '' '' @ HS"
      unfolding eq H by simp
    moreover from f(4) have "drop (length t + 1) HT \<noteq> []" by simp
    ultimately show ?thesis
      using H f(2,3,4) by blast
  qed
  with t eq show ?thesis by blast
qed

text \<open>
  The theorem at a concrete input: with the keyword \<open>pi\<close>, the snippet field of the
  item titled \<open>Raspberry Pi 5 is great\<close> begins with the end of the title.
\<close>

theorem highlighted_snippet_offset_witness:
  "match_item [''pi''] linked_item =
     Inr [\<lparr> item = linked_item, matchedKeywords = [''pi''], highlightedSnippet = ''} 5 is great a review'' \<rparr>] \<and>
   title linked_item = Some ''Raspberry Pi 5 is great'' \<and>
   matches_at ''pi'' (''Raspberry Pi 5 is great'' @ '' '' @ snippet linked_item) 10 \<and>
   (\<exists>HT HS. snd (findAndHighlightKeywords (''Raspberry Pi 5 is great'' @ '' '' @ snippet linked_item) [''pi'']) =
        HT @ '' '' @ HS \<and>
      subseq ''Raspberry Pi 5 is great'' HT \<and> subseq (snippet linked_item) HS \<and>
      length ''Raspberry Pi 5 is great'' + 6 \<le> length HT \<and>
      ''} 5 is great a review'' = drop (length ''Raspberry Pi 5 is great'' + 1) HT @ '' '' @ HS \<and>
      drop (length ''Raspberry Pi 5 is great'' + 1) HT \<noteq> [])"
proof -
  let ?r = "\<lparr> item = linked_item, matchedKeywords = [''pi''], highlightedSnippet = ''} 5 is great a review'' \<rparr>"
  let ?t = "''Raspberry Pi 5 is great''"
  have 1: "match_item [''pi''] linked_item = Inr [?r]"
    by (simp add: eval_match linked_item_def eval_chars)
  have title: "title linked_item = Some ?t" by (simp add: linked_item_def)
  have 2: "matches_at ''pi'' (?t @ '' '' @ snippet linked_item) 10"
    by (simp add: matches_at_def char_before_def keywordRegex_def word_before_def word_at_def
        linked_item_def eval_chars)
  have mem: "?r \<in> set [?r]" by simp
  have inside: "10 + length ''pi'' \<le> length ?t" by simp
  from highlighted_snippet_offset [OF 1 mem] obtain t where t: "title linked_item = Some t"
    and all: "\<forall>kw \<in> set [''pi'']. \<forall>i.
        matches_at kw (t @ '' '' @ snippet linked_item) i \<and> i + length kw \<le> length t \<longrightarrow>
        (\<exists>HT HS. snd (findAndHighlightKeywords (t @ '' '' @ snippet linked_item) [''pi'']) = HT @ '' '' @ HS \<and>
           subseq t HT \<and> subseq (snippet linked_item) HS \<and>
           length t + 6 \<le> length HT \<and>
           highlightedSnippet ?r = drop (length t + 1) HT @ '' '' @ HS \<and>
           drop (length t + 1) HT \<noteq> [])"
    by blast
  from t title have tt: "t = ?t" by simp
  have ex: "\<exists>HT HS. snd (findAndHighlightKeywords (?t @ '' '' @ snippet linked_item) [''pi'']) = HT @ '' '' @ HS \<and>
      subseq ?t HT \<and> subseq (snippet linked_item) HS \<and>
      length ?t + 6 \<le> length HT \<and>
      highlightedSnippet ?r = drop (length ?t + 1) HT @ '' '' @ HS \<and>
      drop (length ?t + 1) HT \<noteq> []"
    by (rule all [unfolded tt, rule_format, of "''pi''" 10, OF _ conjI [OF 2 inside]]) simp
  have sel: "highlightedSnippet ?r = ''} 5 is great a review''" by simp
  from ex have 3: "\<exists>HT HS. snd (findAndHighlightKeywords (?t @ '' '' @ snippet linked_item) [''pi'']) = HT @ '' '' @ HS \<and>
      subseq ?t HT \<and> subseq (snippet linked_item) HS \<and>
      length ?t + 6 \<le> length HT \<and>
      ''} 5 is great a review'' = drop (length ?t + 1) HT @ '' '' @ HS \<and>
      drop (length ?t + 1) HT \<noteq> []"
    unfolding sel .
  from 1 title 2 3 show ?thesis by (intro conjI)
qed

end
